theory Spec2Isabelle
  imports Main "HOL-Library.Word"
begin

unbundle bit_operations_syntax

section \<open>LERC version 1: bytes and the run-length coded validity mask\<close>

text \<open>
  A shallow embedding of \<^verbatim>\<open>frmts/mrf/LERCV1/Lerc1Image.cpp\<close>.  A \<^verbatim>\<open>Byte\<close> is an 8-bit word,
  a buffer walked by a pointer is a byte list, and the byte count that travels with the
  pointer (\<^verbatim>\<open>n\<close>, \<^verbatim>\<open>nRemainingBytes\<close>) is the length of that list.
  C \<^verbatim>\<open>int\<close> values that count bytes or pixels are HOL integers or naturals: the mask of an
  image has at most 1 + (20000 * 20000 - 1) / 8 bytes, far below \<open>2 ^ 31\<close>.
\<close>

type_synonym byte = "8 word"

subsection \<open>RLE constants\<close>

definition MAX_RUN :: nat where
  "MAX_RUN = 32767"

definition MIN_RUN :: nat where
  "MIN_RUN = 5"

text \<open>End of transmission: \<^verbatim>\<open>-(MAX_RUN + 1)\<close>.\<close>

definition EOT :: int where
  "EOT = - (int MAX_RUN + 1)"

subsection \<open>The two-byte counts\<close>

text \<open>
  \<^verbatim>\<open>READ_COUNT\<close>: \<^verbatim>\<open>count = *src++; count += (*src++ << 8);\<close> with \<^verbatim>\<open>short int count\<close>.  The sum
  is at most 65535 and is stored into 16 bits, two's complement.
\<close>

definition read_count :: "byte \<Rightarrow> byte \<Rightarrow> int" where
  "read_count lo hi =
     (let u = int (unat lo) + 256 * int (unat hi)
      in if u < 32768 then u else u - 65536)"

text \<open>
  \<^verbatim>\<open>WRITE_COUNT(val)\<close>: \<^verbatim>\<open>Byte(val & 0xff)\<close> then \<^verbatim>\<open>Byte(val >> 8)\<close>, \<^verbatim>\<open>val\<close> an \<^verbatim>\<open>int\<close>
  (the shift of a negative value is arithmetic, the conversion to \<^verbatim>\<open>Byte\<close> keeps the low
  eight bits).
\<close>

definition write_count :: "int \<Rightarrow> byte list" where
  "write_count val = [word_of_int (val mod 256), word_of_int (val div 256)]"

subsection \<open>\<^verbatim>\<open>BitMaskV1::RLEdecompress\<close>\<close>

text \<open>
  The \<^verbatim>\<open>while (sz > 0)\<close> loop.  \<open>src\<close> holds the \<^verbatim>\<open>n\<close> bytes that may still be read, \<open>sz\<close> is
  the number of mask bytes not yet produced, \<open>dst\<close> the bytes written to the mask so far
  (writes go to consecutive addresses from \<^verbatim>\<open>bits.data()\<close>).  The result is
  (loop left without \<^verbatim>\<open>return false\<close>, bytes written, input left).
\<close>

function RLE_records :: "byte list \<Rightarrow> int \<Rightarrow> byte list \<Rightarrow> bool \<times> byte list \<times> byte list" where
  "RLE_records src sz dst =
     (if sz \<le> 0 then (True, dst, src)
      else case src of
        lo # hi # rest \<Rightarrow>
          (let count = read_count lo hi in
           if count < 0 then
             (case rest of
                [] \<Rightarrow> (False, dst, rest)
              | b # rest' \<Rightarrow>
                  if sz + count < 0 then (False, dst, rest')
                  else RLE_records rest' (sz + count) (dst @ replicate (nat (- count)) b))
           else if sz < count \<or> int (length rest) < count then (False, dst, rest)
           else RLE_records (drop (nat count) rest) (sz - count) (dst @ take (nat count) rest))
      | _ \<Rightarrow> (False, dst, src))"
  by pat_completeness auto
termination
  by (relation "measure (\<lambda>(src, sz, dst). length src)") auto

text \<open>
  The whole function on a mask buffer \<open>bits\<close> (\<^verbatim>\<open>size()\<close> is its byte count): the loop, then
  the last \<^verbatim>\<open>READ_COUNT\<close> and \<^verbatim>\<open>return (count == EOT)\<close>.  The second component is the mask
  buffer after the call: the bytes written, then the old bytes that no write reached.
\<close>

definition RLEdecompress :: "byte list \<Rightarrow> byte list \<Rightarrow> bool \<times> byte list" where
  "RLEdecompress bits src =
     (case RLE_records src (int (length bits)) [] of
        (ok, dst, rest) \<Rightarrow>
          (let bits' = dst @ drop (length dst) bits in
           if \<not> ok then (False, bits')
           else case rest of
             lo # hi # _ \<Rightarrow> (read_count lo hi = EOT, bits')
           | _ \<Rightarrow> (False, bits')))"

subsection \<open>\<^verbatim>\<open>run_length\<close>\<close>

text \<open>
  \<^verbatim>\<open>for (i = 1; i < max_count; i++) if (s[0] != s[i]) return i; return max_count;\<close>
  \<open>run_from b s i mc\<close> is the loop at index \<open>i\<close>, \<open>b\<close> being \<^verbatim>\<open>s[0]\<close> and \<open>s\<close> the bytes from
  \<^verbatim>\<open>s[i]\<close> on.  The callers pass the number of bytes left as \<^verbatim>\<open>max_count\<close>, so the loop never
  reads past the buffer; the first equation is that unreachable case.
\<close>

fun run_from :: "byte \<Rightarrow> byte list \<Rightarrow> nat \<Rightarrow> nat \<Rightarrow> nat" where
  "run_from b [] i mc = (if i < mc then i else mc)"
| "run_from b (x # xs) i mc =
     (if i < mc then (if b \<noteq> x then i else run_from b xs (Suc i) mc) else mc)"

definition run_length :: "byte list \<Rightarrow> nat \<Rightarrow> nat" where
  "run_length s max_count =
     (case s of
        [] \<Rightarrow> 0
      | b # s' \<Rightarrow> run_from b s' 1 (if max_count > MAX_RUN then MAX_RUN else max_count))"

subsection \<open>\<^verbatim>\<open>BitMaskV1::RLEcompress\<close>\<close>

text \<open>
  The output buffer is kept in two parts: \<open>out\<close>, the bytes from \<^verbatim>\<open>start\<close> up to \<^verbatim>\<open>pCnt\<close>
  (finished records), and \<open>lit\<close>, the \<^verbatim>\<open>oddrun\<close> literal bytes already stored at
  \<^verbatim>\<open>pCnt + 2 .. dst\<close> whose count is not written yet.  \<^verbatim>\<open>FLUSH\<close> writes the count in front of
  them and moves \<^verbatim>\<open>pCnt\<close> behind them.
\<close>

definition FLUSH :: "byte list \<Rightarrow> byte list \<Rightarrow> byte list" where
  "FLUSH out lit = (if lit = [] then out else out @ write_count (int (length lit)) @ lit)"

function RLEcompress_loop :: "byte list \<Rightarrow> byte list \<Rightarrow> byte list \<Rightarrow> byte list" where
  "RLEcompress_loop src out lit =
     (case src of
        [] \<Rightarrow> FLUSH out lit @ write_count EOT
      | b # src' \<Rightarrow>
          (let run = run_length src (length src) in
           if run < MIN_RUN then
             (let lit' = lit @ [b] in
              if length lit' = MAX_RUN then RLEcompress_loop src' (FLUSH out lit') []
              else RLEcompress_loop src' out lit')
           else
             RLEcompress_loop (drop run src)
               (FLUSH out lit @ write_count (- int run) @ [b]) []))"
  by pat_completeness auto
termination
  by (relation "measure (\<lambda>(src, out, lit). length src)") (auto simp: MIN_RUN_def)

text \<open>The bytes stored at \<^verbatim>\<open>dst\<close>; the function's return value is their number.\<close>

definition RLEcompress :: "byte list \<Rightarrow> byte list" where
  "RLEcompress bits = RLEcompress_loop bits [] []"

definition RLEcompress_ret :: "byte list \<Rightarrow> int" where
  "RLEcompress_ret bits = int (length (RLEcompress bits))"

subsection \<open>\<^verbatim>\<open>BitMaskV1::RLEsize\<close>\<close>

text \<open>\<^verbatim>\<open>SIMFLUSH\<close> changes \<^verbatim>\<open>osz\<close> and clears \<^verbatim>\<open>oddrun\<close>; here it returns the new \<^verbatim>\<open>osz\<close>.\<close>

definition SIMFLUSH :: "int \<Rightarrow> nat \<Rightarrow> int" where
  "SIMFLUSH osz oddrun = (if oddrun \<noteq> 0 then osz + int oddrun + 2 else osz)"

function RLEsize_loop :: "byte list \<Rightarrow> int \<Rightarrow> nat \<Rightarrow> int" where
  "RLEsize_loop src osz oddrun =
     (case src of
        [] \<Rightarrow> (if oddrun \<noteq> 0 then osz + int oddrun + 2 else osz)
      | b # src' \<Rightarrow>
          (let run = run_length src (length src) in
           if run < MIN_RUN then
             (if Suc oddrun = MAX_RUN then RLEsize_loop src' (SIMFLUSH osz (Suc oddrun)) 0
              else RLEsize_loop src' osz (Suc oddrun))
           else RLEsize_loop (drop run src) (SIMFLUSH osz oddrun + 3) 0))"
  by pat_completeness auto
termination
  by (relation "measure (\<lambda>(src, osz, oddrun). length src)") (auto simp: MIN_RUN_def)

definition RLEsize :: "byte list \<Rightarrow> int" where
  "RLEsize bits = RLEsize_loop bits 2 0"

declare RLEcompress_loop.simps [simp del] RLEsize_loop.simps [simp del] RLE_records.simps [simp del]

subsection \<open>Records of an RLE stream\<close>







section \<open>IEEE 754 single and double precision\<close>

text \<open>
  A \<^verbatim>\<open>float\<close> is its 32-bit pattern and a \<^verbatim>\<open>double\<close> its 64-bit pattern, so that \<^verbatim>\<open>memcpy\<close>
  of a sample is the identity on the model.  Arithmetic is IEEE 754 binary arithmetic with
  round to nearest, ties to even: an operation computes the exact result as a natural
  number \<open>M\<close> times a power of two and rounds it to the precision of the format.  A NaN
  produced by an operation is the quiet NaN with empty payload; no function below lets the
  payload of such a NaN reach its result.
\<close>

type_synonym float = "32 word"
type_synonym double = "64 word"

text \<open>Number of binary digits of a natural number.\<close>

function bitlen_nat :: "nat \<Rightarrow> nat" where
  "bitlen_nat n = (if n = 0 then 0 else Suc (bitlen_nat (n div 2)))"
  by pat_completeness auto
termination
  by (relation "measure (\<lambda>n. n)") auto

declare bitlen_nat.simps [simp del]

text \<open>\<open>M / 2 ^ s\<close> rounded to the nearest natural number, ties to the even one.\<close>

definition round_shift :: "nat \<Rightarrow> nat \<Rightarrow> nat" where
  "round_shift M s =
     (if s = 0 then M
      else if M mod 2 ^ s > 2 ^ (s - 1) \<or> (M mod 2 ^ s = 2 ^ (s - 1) \<and> odd (M div 2 ^ s))
      then M div 2 ^ s + 1
      else M div 2 ^ s)"

text \<open>
  A format is given by its precision \<open>p\<close> (24 or 53 bits), the exponent \<open>qmin\<close> of its
  smallest quantum (-149 or -1074) and the bit pattern \<open>infm\<close> of its infinity.  The
  magnitude bits \<open>a\<close> of a finite number (the pattern without the sign bit) stand for
  \<open>m * 2 ^ q\<close>, where \<open>fp_man\<close> gives \<open>m\<close> and \<open>fp_exp\<close> gives \<open>q\<close>; \<open>fp_round\<close> gives the
  magnitude bits of the number nearest to \<open>M * 2 ^ E\<close>, infinity on overflow.
\<close>

definition fp_man :: "nat \<Rightarrow> nat \<Rightarrow> nat" where
  "fp_man p a = (if a div 2 ^ (p - 1) = 0 then a else a mod 2 ^ (p - 1) + 2 ^ (p - 1))"

definition fp_exp :: "nat \<Rightarrow> int \<Rightarrow> nat \<Rightarrow> int" where
  "fp_exp p qmin a =
     (if a div 2 ^ (p - 1) = 0 then qmin else qmin + int (a div 2 ^ (p - 1)) - 1)"

definition fp_round :: "nat \<Rightarrow> int \<Rightarrow> nat \<Rightarrow> nat \<Rightarrow> int \<Rightarrow> nat" where
  "fp_round p qmin infm M E =
     (if M = 0 then 0
      else
        let e = int (bitlen_nat M) - 1 + E;
            q = max (e - (int p - 1)) qmin;
            m = (if q \<le> E then M * 2 ^ nat (E - q) else round_shift M (nat (q - E)));
            a = nat (q - qmin) * 2 ^ (p - 1) + m
        in if a \<ge> infm then infm else a)"

subsection \<open>Single precision\<close>

definition f_sign :: "float \<Rightarrow> bool" where
  "f_sign w = (unat w \<ge> 2 ^ 31)"

definition f_mag :: "float \<Rightarrow> nat" where
  "f_mag w = unat w mod 2 ^ 31"

definition f_inf :: nat where
  "f_inf = 0x7F800000"

definition f_pack :: "bool \<Rightarrow> nat \<Rightarrow> float" where
  "f_pack s a = word_of_nat (if s then a + 2 ^ 31 else a)"

definition f_nan :: float where
  "f_nan = 0x7FC00000"

definition f_isnan :: "float \<Rightarrow> bool" where
  "f_isnan w = (f_mag w > f_inf)"

text \<open>\<^verbatim>\<open>std::isfinite\<close>\<close>

definition f_isfinite :: "float \<Rightarrow> bool" where
  "f_isfinite w = (f_mag w < f_inf)"

definition f_man :: "float \<Rightarrow> nat" where
  "f_man w = fp_man 24 (f_mag w)"

definition f_exp :: "float \<Rightarrow> int" where
  "f_exp w = fp_exp 24 (- 149) (f_mag w)"

definition f_round :: "bool \<Rightarrow> nat \<Rightarrow> int \<Rightarrow> float" where
  "f_round s M E = f_pack s (fp_round 24 (- 149) f_inf M E)"

text \<open>
  Comparisons.  The magnitude bits order the non-NaN values by absolute value, both zeros
  are equal, and every ordered comparison with a NaN is false.
\<close>

definition f_key :: "float \<Rightarrow> int" where
  "f_key w = (if f_sign w then - int (f_mag w) else int (f_mag w))"

definition f_lt :: "float \<Rightarrow> float \<Rightarrow> bool" where
  "f_lt a b = (\<not> f_isnan a \<and> \<not> f_isnan b \<and> f_key a < f_key b)"

definition f_le :: "float \<Rightarrow> float \<Rightarrow> bool" where
  "f_le a b = (\<not> f_isnan a \<and> \<not> f_isnan b \<and> f_key a \<le> f_key b)"

definition f_eq :: "float \<Rightarrow> float \<Rightarrow> bool" where
  "f_eq a b = (\<not> f_isnan a \<and> \<not> f_isnan b \<and> f_key a = f_key b)"

text \<open>Conversion of an integer (\<^verbatim>\<open>signed char\<close>, \<^verbatim>\<open>short\<close>, \<^verbatim>\<open>int\<close>) to \<^verbatim>\<open>float\<close>.\<close>

definition i2f :: "int \<Rightarrow> float" where
  "i2f i = f_round (i < 0) (nat \<bar>i\<bar>) 0"

text \<open>
  Conversion of a \<^verbatim>\<open>float\<close> to an integer type truncates towards zero.  It is undefined in
  C++ for a NaN, an infinity or a value outside the range of the type; \<open>f_trunc\<close> is 0 on
  the first two, and the source converts only values that it has found to be in range.
\<close>

definition f_trunc :: "float \<Rightarrow> int" where
  "f_trunc w =
     (if \<not> f_isfinite w then 0
      else
        let v = (if f_exp w \<ge> 0 then int (f_man w) * 2 ^ nat (f_exp w)
                 else int (f_man w div 2 ^ nat (- f_exp w)))
        in if f_sign w then - v else v)"

text \<open>\<^verbatim>\<open>floorf\<close>\<close>

definition floorf :: "float \<Rightarrow> float" where
  "floorf w =
     (if \<not> f_isfinite w \<or> f_man w = 0 \<or> f_exp w \<ge> 0 then w
      else
        let k = f_man w div 2 ^ nat (- f_exp w);
            exact = (f_man w mod 2 ^ nat (- f_exp w) = 0)
        in if \<not> f_sign w then f_round False k 0
           else f_round True (if exact then k else k + 1) 0)"

subsection \<open>Double precision\<close>

definition d_sign :: "double \<Rightarrow> bool" where
  "d_sign w = (unat w \<ge> 2 ^ 63)"

definition d_mag :: "double \<Rightarrow> nat" where
  "d_mag w = unat w mod 2 ^ 63"

definition d_inf :: nat where
  "d_inf = 0x7FF0000000000000"

definition d_pack :: "bool \<Rightarrow> nat \<Rightarrow> double" where
  "d_pack s a = word_of_nat (if s then a + 2 ^ 63 else a)"

definition d_nan :: double where
  "d_nan = 0x7FF8000000000000"

definition d_isnan :: "double \<Rightarrow> bool" where
  "d_isnan w = (d_mag w > d_inf)"

definition d_isinf :: "double \<Rightarrow> bool" where
  "d_isinf w = (d_mag w = d_inf)"

definition d_man :: "double \<Rightarrow> nat" where
  "d_man w = fp_man 53 (d_mag w)"

definition d_exp :: "double \<Rightarrow> int" where
  "d_exp w = fp_exp 53 (- 1074) (d_mag w)"

definition d_round :: "bool \<Rightarrow> nat \<Rightarrow> int \<Rightarrow> double" where
  "d_round s M E = d_pack s (fp_round 53 (- 1074) d_inf M E)"

definition d_key :: "double \<Rightarrow> int" where
  "d_key w = (if d_sign w then - int (d_mag w) else int (d_mag w))"

definition d_lt :: "double \<Rightarrow> double \<Rightarrow> bool" where
  "d_lt a b = (\<not> d_isnan a \<and> \<not> d_isnan b \<and> d_key a < d_key b)"

definition d_eq :: "double \<Rightarrow> double \<Rightarrow> bool" where
  "d_eq a b = (\<not> d_isnan a \<and> \<not> d_isnan b \<and> d_key a = d_key b)"

text \<open>The sum of two doubles.\<close>

definition d_add :: "double \<Rightarrow> double \<Rightarrow> double" where
  "d_add x y =
     (if d_isnan x \<or> d_isnan y then d_nan
      else if d_isinf x then (if d_isinf y \<and> d_sign x \<noteq> d_sign y then d_nan else x)
      else if d_isinf y then y
      else if d_man y = 0 then (if d_man x = 0 then d_pack (d_sign x \<and> d_sign y) 0 else x)
      else if d_man x = 0 then y
      else
        let e = min (d_exp x) (d_exp y);
            v = (if d_sign x then - 1 else 1) * int (d_man x) * 2 ^ nat (d_exp x - e) +
                (if d_sign y then - 1 else 1) * int (d_man y) * 2 ^ nat (d_exp y - e)
        in if v = 0 then d_pack False 0 else d_round (v < 0) (nat \<bar>v\<bar>) e)"

definition d_neg :: "double \<Rightarrow> double" where
  "d_neg x = d_pack (\<not> d_sign x) (d_mag x)"

definition d_sub :: "double \<Rightarrow> double \<Rightarrow> double" where
  "d_sub x y = d_add x (d_neg y)"

definition d_mul :: "double \<Rightarrow> double \<Rightarrow> double" where
  "d_mul x y =
     (if d_isnan x \<or> d_isnan y then d_nan
      else if d_isinf x \<or> d_isinf y then
        (if d_mag x = 0 \<or> d_mag y = 0 then d_nan else d_pack (d_sign x \<noteq> d_sign y) d_inf)
      else if d_man x = 0 \<or> d_man y = 0 then d_pack (d_sign x \<noteq> d_sign y) 0
      else d_round (d_sign x \<noteq> d_sign y) (d_man x * d_man y) (d_exp x + d_exp y))"

text \<open>
  The quotient.  For finite non-zero operands the dividend is scaled so that the integer
  quotient has more than 55 digits; one more digit records whether the division left a
  remainder, which is all that rounding to 53 digits needs to know of the digits dropped.
\<close>

definition d_div :: "double \<Rightarrow> double \<Rightarrow> double" where
  "d_div x y =
     (if d_isnan x \<or> d_isnan y then d_nan
      else if d_isinf x then (if d_isinf y then d_nan else d_pack (d_sign x \<noteq> d_sign y) d_inf)
      else if d_isinf y then d_pack (d_sign x \<noteq> d_sign y) 0
      else if d_man y = 0 then
        (if d_man x = 0 then d_nan else d_pack (d_sign x \<noteq> d_sign y) d_inf)
      else if d_man x = 0 then d_pack (d_sign x \<noteq> d_sign y) 0
      else
        let k = 55 + bitlen_nat (d_man y);
            n = d_man x * 2 ^ k
        in d_round (d_sign x \<noteq> d_sign y)
             (2 * (n div d_man y) + (if n mod d_man y = 0 then 0 else 1))
             (d_exp x - d_exp y - int k - 1))"

text \<open>Conversions between the two formats and from \<^verbatim>\<open>unsigned int\<close>.\<close>

definition f2d :: "float \<Rightarrow> double" where
  "f2d w =
     (if f_isnan w then d_nan
      else if \<not> f_isfinite w then d_pack (f_sign w) d_inf
      else d_round (f_sign w) (f_man w) (f_exp w))"

definition d2f :: "double \<Rightarrow> float" where
  "d2f x =
     (if d_isnan x then f_nan
      else if d_isinf x then f_pack (d_sign x) f_inf
      else f_round (d_sign x) (d_man x) (d_exp x))"

definition u2d :: "nat \<Rightarrow> double" where
  "u2d n = d_round False n 0"

text \<open>
  \<^verbatim>\<open>static_cast<unsigned int>\<close> of a double truncates towards zero.  The conversion is
  undefined in C++ when the truncated value is not in \<open>0 .. 2 ^ 32 - 1\<close> (or the double is
  a NaN or an infinity); \<open>d2u\<close> is 0 there.
\<close>

definition d2u :: "double \<Rightarrow> nat" where
  "d2u x =
     (if d_isnan x \<or> d_isinf x \<or> d_sign x then 0
      else
        let v = (if d_exp x \<ge> 0 then d_man x * 2 ^ nat (d_exp x)
                 else d_man x div 2 ^ nat (- d_exp x))
        in if v < 2 ^ 32 then v else 0)"

section \<open>The image\<close>

text \<open>
  Modelled from the spec: the header \<^verbatim>\<open>Lerc1Image.h\<close>, with the classes \<^verbatim>\<open>BitMaskV1\<close>,
  \<^verbatim>\<open>TImage\<close> and the members of \<^verbatim>\<open>Lerc1Image\<close>, is not among the sources.  The spec gives the
  image as a dense row-major grid of single-precision samples of \<open>width * height\<close> pixels
  with a validity mask that is a packed bit array of one bit per pixel, 1 for valid.  The
  model packs the bit of pixel \<open>k\<close> into byte \<open>k div 8\<close>, most significant bit first, and
  gives the mask \<open>1 + (width * height - 1) / 8\<close> bytes.  No theorem below depends on the
  order of the bits in a byte.
\<close>

record image =
  img_width :: nat
  img_height :: nat
  img_data :: "float list"
  img_mask :: "byte list"

definition getWidth :: "image \<Rightarrow> nat" where
  "getWidth img = img_width img"

definition getHeight :: "image \<Rightarrow> nat" where
  "getHeight img = img_height img"

definition getSize :: "image \<Rightarrow> nat" where
  "getSize img = img_width img * img_height img"

definition mask_size :: "nat \<Rightarrow> nat \<Rightarrow> nat" where
  "mask_size w h = 1 + (w * h - 1) div 8"

definition mask_IsValid :: "byte list \<Rightarrow> nat \<Rightarrow> bool" where
  "mask_IsValid bs k = bit (bs ! (k div 8)) (7 - k mod 8)"

definition mask_Set :: "byte list \<Rightarrow> nat \<Rightarrow> bool \<Rightarrow> byte list" where
  "mask_Set bs k v =
     bs[k div 8 := (if v then set_bit (7 - k mod 8) (bs ! (k div 8))
                    else unset_bit (7 - k mod 8) (bs ! (k div 8)))]"

definition IsValid :: "image \<Rightarrow> nat \<Rightarrow> nat \<Rightarrow> bool" where
  "IsValid img row col = mask_IsValid (img_mask img) (row * img_width img + col)"

text \<open>\<^verbatim>\<open>(*this)(row, col)\<close>, read and written.\<close>

definition pixel :: "image \<Rightarrow> nat \<Rightarrow> nat \<Rightarrow> float" where
  "pixel img row col = img_data img ! (row * img_width img + col)"

definition set_pixel :: "image \<Rightarrow> nat \<Rightarrow> nat \<Rightarrow> float \<Rightarrow> image" where
  "set_pixel img row col v =
     img\<lparr>img_data := (img_data img)[row * img_width img + col := v]\<rparr>"

text \<open>\<^verbatim>\<open>resize\<close>: both vectors get their new sizes, new elements are zero.\<close>

definition resize :: "image \<Rightarrow> nat \<Rightarrow> nat \<Rightarrow> image" where
  "resize img w h =
     img\<lparr>img_width := w, img_height := h,
         img_data := take (w * h) (img_data img) @ replicate (w * h - length (img_data img)) 0,
         img_mask := take (mask_size w h) (img_mask img) @
                     replicate (mask_size w h - length (img_mask img)) 0\<rparr>"

text \<open>
  The pixels of the rectangle \<open>[r0, r1) \<times> [c0, c1)\<close> in the order of
  \<^verbatim>\<open>for (row = r0; row < r1; row++) for (col = c0; col < c1; col++)\<close>.
\<close>

definition cells :: "nat \<Rightarrow> nat \<Rightarrow> nat \<Rightarrow> nat \<Rightarrow> (nat \<times> nat) list" where
  "cells r0 r1 c0 c1 = List.product [r0..<r1] [c0..<c1]"

section \<open>Unaligned variables in a byte buffer\<close>

text \<open>
  \<^verbatim>\<open>memcpy\<close> of a variable to or from the buffer, on a little-endian machine: the \<open>n\<close> low
  bytes of a number, least significant first.
\<close>

fun bytes_of_nat :: "nat \<Rightarrow> nat \<Rightarrow> byte list" where
  "bytes_of_nat 0 v = []"
| "bytes_of_nat (Suc n) v = word_of_nat (v mod 256) # bytes_of_nat n (v div 256)"

fun nat_of_bytes :: "byte list \<Rightarrow> nat" where
  "nat_of_bytes [] = 0"
| "nat_of_bytes (b # bs) = unat b + 256 * nat_of_bytes bs"

text \<open>A 32-bit \<^verbatim>\<open>int\<close>, two's complement.\<close>

definition bytes_of_int32 :: "int \<Rightarrow> byte list" where
  "bytes_of_int32 i = bytes_of_nat 4 (nat (i mod 2 ^ 32))"

definition int32_of_bytes :: "byte list \<Rightarrow> int" where
  "int32_of_bytes bs =
     (let u = int (nat_of_bytes (take 4 bs)) in if u < 2 ^ 31 then u else u - 2 ^ 32)"

definition bytes_of_float :: "float \<Rightarrow> byte list" where
  "bytes_of_float z = bytes_of_nat 4 (unat z)"

definition float_of_bytes :: "byte list \<Rightarrow> float" where
  "float_of_bytes bs = word_of_nat (nat_of_bytes (take 4 bs))"

definition bytes_of_double :: "double \<Rightarrow> byte list" where
  "bytes_of_double x = bytes_of_nat 8 (unat x)"

definition double_of_bytes :: "byte list \<Rightarrow> double" where
  "double_of_bytes bs = word_of_nat (nat_of_bytes (take 8 bs))"

section \<open>Scalar codecs\<close>

text \<open>\<^verbatim>\<open>MAXQ = 0x1000000\<close> as a double, and the double constants 0, 0.5, 2 and 0.999999.\<close>

definition MAXQ :: double where
  "MAXQ = 0x4170000000000000"

definition d_zero :: double where
  "d_zero = 0"

definition d_half :: double where
  "d_half = 0x3FE0000000000000"

definition d_two :: double where
  "d_two = 0x4000000000000000"

definition d_0999999 :: double where
  "d_0999999 = 0x3FEFFFFDE7210BE9"

text \<open>\<^verbatim>\<open>FLT_MAX\<close>, \<^verbatim>\<open>-FLT_MAX\<close>, \<^verbatim>\<open>NAN\<close> and the float 0.\<close>

definition FLT_MAX :: float where
  "FLT_MAX = 0x7F7FFFFF"

definition neg_FLT_MAX :: float where
  "neg_FLT_MAX = 0xFF7FFFFF"

definition NAN :: float where
  "NAN = 0x7FC00000"

definition f_zero :: float where
  "f_zero = 0"

text \<open>The lookup tables \<^verbatim>\<open>bits67\<close> and \<^verbatim>\<open>stib67\<close>.\<close>

definition bits67 :: "nat \<Rightarrow> byte" where
  "bits67 i = [0x80, 0x40, 0xC0, 0] ! i"

definition stib67 :: "nat \<Rightarrow> nat" where
  "stib67 i = [4, 2, 1, 0] ! i"

definition numBytesUInt :: "nat \<Rightarrow> nat" where
  "numBytesUInt k = (if k \<le> 0xFF then 1 else if k \<le> 0xFFFF then 2 else 4)"

text \<open>
  \<^verbatim>\<open>nBits\<close>, the index of the top set bit counting from 1, on a 32-bit unsigned value; the
  right shifts are divisions, and the left shift by one cannot overflow as the value
  shifted is below 16.
\<close>

definition nBits :: "nat \<Rightarrow> nat" where
  "nBits v0 =
     (let r = (if v0 div 2 ^ 16 \<noteq> 0 then 16 else 0);
          v1 = v0 div 2 ^ r;
          t = (if v1 div 2 ^ 8 \<noteq> 0 then 8 else 0);
          v2 = v1 div 2 ^ t;
          r2 = r + t;
          t2 = (if v2 div 2 ^ 4 \<noteq> 0 then 4 else (0::nat));
          v3 = (v2 div 2 ^ t2) * 2
      in 1 + r2 + t2 + (0xFFFFAA50 div 2 ^ v3) mod 4)"

text \<open>
  \<^verbatim>\<open>numBytesFlt\<close>.  \<^verbatim>\<open>SHRT_MAX\<close>, \<^verbatim>\<open>SHRT_MIN\<close>, \<^verbatim>\<open>SCHAR_MAX\<close> and \<^verbatim>\<open>SCHAR_MIN\<close> are converted to
  \<^verbatim>\<open>float\<close> for the comparisons, as is \<^verbatim>\<open>int16_t(z)\<close>; \<^verbatim>\<open>||\<close> evaluates its right operand only
  when the left one is false, so the conversion to \<^verbatim>\<open>int16_t\<close> is made on values in range.
\<close>

definition numBytesFlt :: "float \<Rightarrow> nat" where
  "numBytesFlt z =
     (if \<not> f_isfinite z \<or> f_lt (i2f 32767) z \<or> f_lt z (i2f (- 32768)) \<or>
         \<not> f_eq z (i2f (f_trunc z)) then 4
      else if f_lt (i2f 127) z \<or> f_lt z (i2f (- 128)) then 2
      else 1)"

text \<open>\<^verbatim>\<open>writeFlt\<close>: the bytes stored; \<open>n\<close> is 1, 2 or 4.\<close>

definition writeFlt :: "float \<Rightarrow> nat \<Rightarrow> byte list" where
  "writeFlt z n =
     (if n = 4 then bytes_of_float z
      else if n = 1 then [word_of_int (f_trunc z)]
      else bytes_of_nat 2 (nat (f_trunc z mod 2 ^ 16)))"

text \<open>\<^verbatim>\<open>readFlt\<close>: a float stored as \<^verbatim>\<open>signed char\<close>, \<^verbatim>\<open>signed short\<close> or \<^verbatim>\<open>float\<close>.\<close>

definition readFlt :: "byte list \<Rightarrow> nat \<Rightarrow> float" where
  "readFlt ptr n =
     (if n = 4 then float_of_bytes ptr
      else if n = 2 then
        (let u = int (nat_of_bytes (take 2 ptr)) in i2f (if u < 2 ^ 15 then u else u - 2 ^ 16))
      else
        (let u = int (unat (hd ptr)) in i2f (if u < 2 ^ 7 then u else u - 2 ^ 8)))"

text \<open>
  The quotient \<^verbatim>\<open>((double)zMax - zMin) / (2 * maxZError)\<close> of \<^verbatim>\<open>numBytesZTile\<close> and of the test
  that selects the coding of a tile.
\<close>

definition zrange_over :: "float \<Rightarrow> float \<Rightarrow> double \<Rightarrow> double" where
  "zrange_over zMin zMax maxZError =
     d_div (d_sub (f2d zMax) (f2d zMin)) (d_mul d_two maxZError)"

text \<open>
  \<^verbatim>\<open>numBytesZTile\<close>.  The product \<^verbatim>\<open>nValues * nBits(maxElem)\<close> is an \<^verbatim>\<open>int\<close> in the source; a
  tile of an image within the size limits has at most 400 000 000 values of at most 25 bits,
  and the model does not wrap it.
\<close>

definition numBytesZTile :: "nat \<Rightarrow> float \<Rightarrow> float \<Rightarrow> double \<Rightarrow> nat" where
  "numBytesZTile nValues zMin zMax maxZError =
     (if nValues = 0 \<or> (f_eq zMin f_zero \<and> f_eq zMax f_zero) then 1
      else if d_eq maxZError d_zero \<or> \<not> f_isfinite zMin \<or> \<not> f_isfinite zMax \<or>
              d_lt MAXQ (zrange_over zMin zMax maxZError)
      then 1 + nValues * 4
      else
        let maxElem = d2u (d_add (zrange_over zMin zMax maxZError) d_half);
            nb = 1 + numBytesFlt zMin
        in if maxElem = 0 then nb
           else nb + 1 + numBytesUInt nValues + (nValues * nBits maxElem + 7) div 8)"

section \<open>Tile statistics\<close>

text \<open>
  \<^verbatim>\<open>computeZStats\<close>.  \<open>computeZStats_step\<close> is the body of the two loops on one pixel, on the
  variables \<open>(zMin, zMax, numValidPixel, numFinite)\<close>.  The rectangle bounds are naturals, so
  the tests \<^verbatim>\<open>r0 < 0\<close> and \<^verbatim>\<open>c0 < 0\<close> of the source are false.
\<close>

definition computeZStats_step ::
  "image \<Rightarrow> nat \<times> nat \<Rightarrow> float \<times> float \<times> nat \<times> nat \<Rightarrow> float \<times> float \<times> nat \<times> nat" where
  "computeZStats_step img rc s =
     (case s of (zMin, zMax, numValidPixel, numFinite) \<Rightarrow>
        if IsValid img (fst rc) (snd rc) then
          (let val = pixel img (fst rc) (snd rc);
               zMin1 = (if f_isfinite val then zMin else NAN);
               zMin2 = (if f_lt val zMin1 then val else zMin1);
               zMax2 = (if f_lt zMax val then val else zMax)
           in (zMin2, zMax2, numValidPixel + 1,
               if f_isfinite val then numFinite + 1 else numFinite))
        else s)"

definition computeZStats ::
  "image \<Rightarrow> nat \<Rightarrow> nat \<Rightarrow> nat \<Rightarrow> nat \<Rightarrow> (float \<times> float \<times> nat \<times> nat) option" where
  "computeZStats img r0 r1 c0 c1 =
     (if r1 > getHeight img \<or> c1 > getWidth img then None
      else
        (case fold (computeZStats_step img) (cells r0 r1 c0 c1) (FLT_MAX, neg_FLT_MAX, 0, 0) of
           (zMin, zMax, numValidPixel, numFinite) \<Rightarrow>
             if numValidPixel = 0 then Some (f_zero, f_zero, numValidPixel, numFinite)
             else Some (zMin, zMax, numValidPixel, numFinite)))"

text \<open>\<^verbatim>\<open>isallsameval\<close>: all samples of the rectangle have the bit pattern of the first.\<close>

definition isallsameval :: "image \<Rightarrow> nat \<Rightarrow> nat \<Rightarrow> nat \<Rightarrow> nat \<Rightarrow> bool" where
  "isallsameval img r0 r1 c0 c1 =
     list_all (\<lambda>rc. pixel img (fst rc) (snd rc) = pixel img r0 c0) (cells r0 r1 c0 c1)"

section \<open>Writing one tile\<close>

text \<open>The valid pixels of a rectangle, in scan order.\<close>

definition valid_cells :: "image \<Rightarrow> nat \<Rightarrow> nat \<Rightarrow> nat \<Rightarrow> nat \<Rightarrow> (nat \<times> nat) list" where
  "valid_cells img r0 r1 c0 c1 =
     filter (\<lambda>rc. IsValid img (fst rc) (snd rc)) (cells r0 r1 c0 c1)"

text \<open>\<^verbatim>\<open>(unsigned int)(((double)v - zMin) * f + 0.5)\<close>\<close>

definition quantize :: "float \<Rightarrow> float \<Rightarrow> double \<Rightarrow> nat" where
  "quantize v zMin f = d2u (d_add (d_mul (d_sub (f2d v) (f2d zMin)) f) d_half)"

text \<open>
  The bit stuffer of \<^verbatim>\<open>writeZTile\<close>: one quantized value \<open>val\<close> of \<open>numBits\<close> bits goes into
  the 32-bit accumulator \<open>acc\<close>, which has \<open>bits\<close> free bits; a full accumulator is stored.
  The state is (\<open>acc\<close>, \<open>bits\<close>, bytes stored).
\<close>

definition stuff_step ::
  "nat \<Rightarrow> 32 word \<Rightarrow> 32 word \<times> nat \<times> byte list \<Rightarrow> 32 word \<times> nat \<times> byte list" where
  "stuff_step numBits val s =
     (case s of (acc, bits, out) \<Rightarrow>
        if bits \<ge> numBits then (acc OR push_bit (bits - numBits) val, bits - numBits, out)
        else (push_bit (bits + 32 - numBits) val, bits + 32 - numBits,
              out @ bytes_of_nat 4 (unat (acc OR drop_bit (numBits - bits) val))))"

text \<open>\<^verbatim>\<open>while (bits >= 8) { acc >>= 8; bits -= 8; nbytes--; }\<close>\<close>

function flush_acc :: "32 word \<Rightarrow> nat \<Rightarrow> nat \<Rightarrow> 32 word \<times> nat" where
  "flush_acc acc bits nbytes =
     (if bits \<ge> 8 then flush_acc (drop_bit 8 acc) (bits - 8) (nbytes - 1) else (acc, nbytes))"
  by pat_completeness auto
termination
  by (relation "measure (\<lambda>(acc, bits, nbytes). bits)") auto

declare flush_acc.simps [simp del]

text \<open>
  \<^verbatim>\<open>writeZTile\<close>.  The result is the bytes stored at \<^verbatim>\<open>*ppByte\<close> (\<^verbatim>\<open>numBytes\<close> is their
  number), or \<open>None\<close> for \<^verbatim>\<open>return false\<close>.
\<close>

definition writeZTile ::
  "image \<Rightarrow> nat \<Rightarrow> nat \<Rightarrow> nat \<Rightarrow> nat \<Rightarrow> nat \<Rightarrow> float \<Rightarrow> float \<Rightarrow> double \<Rightarrow> byte list option" where
  "writeZTile img r0 r1 c0 c1 numValidPixel zMin zMax maxZError =
     (if numValidPixel = 0 \<or> (f_eq zMin f_zero \<and> f_eq zMax f_zero) then Some [2]
      else if d_eq maxZError d_zero \<or> \<not> f_isfinite zMin \<or> \<not> f_isfinite zMax \<or>
              d_lt MAXQ (zrange_over zMin zMax maxZError)
      then
        (let vc = valid_cells img r0 r1 c0 c1
         in if length vc \<noteq> numValidPixel then None
            else Some (0 # concat (map (\<lambda>rc. bytes_of_float (pixel img (fst rc) (snd rc))) vc)))
      else
        (let f = d_div d_half maxZError;
             maxElem = d2u (d_add (d_mul (d_sub (f2d zMax) (f2d zMin)) f) d_half);
             flag = (if maxElem = 0 then 3 else 1);
             n = numBytesFlt zMin;
             hdr = (flag OR bits67 (n - 1)) # writeFlt zMin n
         in if maxElem > 0 then
              (let numBits = nBits maxElem;
                   n2 = numBytesUInt numValidPixel;
                   hdr2 = (word_of_nat numBits OR bits67 (n2 - 1)) # bytes_of_nat n2 numValidPixel;
                   vc = valid_cells img r0 r1 c0 c1
               in case fold (\<lambda>rc. stuff_step numBits
                                (word_of_nat (quantize (pixel img (fst rc) (snd rc)) zMin f)))
                         vc (0, 32, []) of
                    (acc, bits, out) \<Rightarrow>
                      if length vc \<noteq> numValidPixel then None
                      else (case flush_acc acc bits 4 of
                              (acc2, nbytes) \<Rightarrow>
                                Some (hdr @ hdr2 @ out @ bytes_of_nat nbytes (unat acc2))))
            else Some hdr))"

section \<open>Tiles of the value part\<close>

text \<open>
  \<^verbatim>\<open>for (v0 = 0; v0 < getHeight(); v0 += tileHeight) { v1 = min(getHeight(), v0 + tileHeight) ...\<close>:
  the pairs \<open>(v0, v1)\<close> the loop goes through.  With a tile height of 0 the loop of the source
  does not advance; the functions below test for that before they use the list.
\<close>

function tile_ranges :: "nat \<Rightarrow> nat \<Rightarrow> nat \<Rightarrow> (nat \<times> nat) list" where
  "tile_ranges v0 H th =
     (if v0 < H \<and> 0 < th then (v0, min H (v0 + th)) # tile_ranges (v0 + th) H th else [])"
  by pat_completeness auto
termination
  by (relation "measure (\<lambda>(v0, H, th). H - v0)") auto

declare tile_ranges.simps [simp del]

definition tiles :: "nat \<Rightarrow> nat \<Rightarrow> nat \<Rightarrow> nat \<Rightarrow> ((nat \<times> nat) \<times> (nat \<times> nat)) list" where
  "tiles H W th tw = List.product (tile_ranges 0 H th) (tile_ranges 0 W tw)"

text \<open>
  The choice of \<^verbatim>\<open>zMin\<close> and \<^verbatim>\<open>numBytesNeeded\<close> for one tile in \<^verbatim>\<open>writeTiles\<close>; \<open>allsame\<close> is
  \<^verbatim>\<open>numFinite == 0 && numValidPixel == (v1 - v0) * (h1 - h0) && isallsameval(v0, v1, h0, h1)\<close>.
\<close>

definition tile_plan ::
  "nat \<Rightarrow> nat \<Rightarrow> bool \<Rightarrow> float \<Rightarrow> float \<Rightarrow> double \<Rightarrow> float \<times> nat" where
  "tile_plan numValidPixel numFinite allsame zMin zMax maxZError =
     (if numValidPixel = 0 then (zMin, 1)
      else if allsame then (zMin, 5)
      else
        let numBytesNeeded = numBytesZTile numValidPixel zMin zMax maxZError;
            zm = d2f (d_add (f2d zMin) (d_mul d_0999999 maxZError))
        in if numFinite = numValidPixel \<and> f_le zm zMax then
             (let nBN = numBytesZTile numValidPixel zm zMax maxZError;
                  nBNi = numBytesZTile numValidPixel (floorf zm) zMax maxZError;
                  zm2 = (if f_lt zMin (floorf zm) \<and> nBNi < nBN then floorf zm else zm);
                  nBN2 = (if f_lt zMin (floorf zm) \<and> nBNi < nBN then nBNi else nBN)
              in if nBN2 < numBytesNeeded then (zm2, nBN2) else (zMin, numBytesNeeded))
           else (zMin, numBytesNeeded))"

text \<open>
  The body of the loops of \<^verbatim>\<open>writeTiles\<close> for the tile \<open>[v0, v1) \<times> [h0, h1)\<close>: the result is
  \<open>(zMax, numBytesNeeded, bytes stored)\<close>, no bytes when \<^verbatim>\<open>bArr\<close> is null (\<open>doWrite\<close> false).
\<close>

definition writeTile ::
  "image \<Rightarrow> double \<Rightarrow> bool \<Rightarrow> (nat \<times> nat) \<times> (nat \<times> nat) \<Rightarrow> (float \<times> nat \<times> byte list) option" where
  "writeTile img maxZError doWrite t =
     (case t of ((v0, v1), (h0, h1)) \<Rightarrow>
        case computeZStats img v0 v1 h0 h1 of
          None \<Rightarrow> None
        | Some (zMin, zMax, numValidPixel, numFinite) \<Rightarrow>
            (let allsame = (numFinite = 0 \<and> numValidPixel = (v1 - v0) * (h1 - h0) \<and>
                            isallsameval img v0 v1 h0 h1);
                 zMin2 = fst (tile_plan numValidPixel numFinite allsame zMin zMax maxZError);
                 numBytesNeeded = snd (tile_plan numValidPixel numFinite allsame zMin zMax maxZError)
             in if \<not> doWrite then Some (zMax, numBytesNeeded, [])
                else if allsame then
                  (if 5 \<noteq> numBytesNeeded then None
                   else Some (zMax, numBytesNeeded, 3 # writeFlt (pixel img v0 h0) 4))
                else
                  (case writeZTile img v0 v1 h0 h1 numValidPixel zMin2 zMax maxZError of
                     None \<Rightarrow> None
                   | Some bytes \<Rightarrow>
                       if length bytes \<noteq> numBytesNeeded then None
                       else Some (zMax, numBytesNeeded, bytes))))"

fun writeTiles_loop ::
  "image \<Rightarrow> double \<Rightarrow> bool \<Rightarrow> ((nat \<times> nat) \<times> (nat \<times> nat)) list \<Rightarrow> nat \<Rightarrow> float \<Rightarrow> byte list \<Rightarrow>
   (nat \<times> float \<times> byte list) option" where
  "writeTiles_loop img maxZError doWrite [] numBytes maxValInImg out =
     Some (numBytes, maxValInImg, out)"
| "writeTiles_loop img maxZError doWrite (t # ts) numBytes maxValInImg out =
     (case writeTile img maxZError doWrite t of
        None \<Rightarrow> None
      | Some (zMax, numBytesNeeded, bytes) \<Rightarrow>
          writeTiles_loop img maxZError doWrite ts (numBytes + numBytesNeeded)
            (if f_lt maxValInImg zMax then zMax else maxValInImg) (out @ bytes))"

text \<open>
  \<^verbatim>\<open>writeTiles\<close>: \<open>Some (numBytes, maxValInImg, bytes stored at bArr)\<close> for \<^verbatim>\<open>return true\<close>.
  \<open>None\<close> stands for \<^verbatim>\<open>return false\<close> and also for the calls on which the source does not
  return: a tile height or width of 0 (more tiles asked for than rows or columns) with
  rows or columns to go through.  The callers pass positive tile counts.
\<close>

definition writeTiles ::
  "image \<Rightarrow> double \<Rightarrow> nat \<Rightarrow> nat \<Rightarrow> bool \<Rightarrow> (nat \<times> float \<times> byte list) option" where
  "writeTiles img maxZError numTilesV numTilesH doWrite =
     (if numTilesV = 0 \<or> numTilesH = 0 then None
      else
        let tileHeight = getHeight img div numTilesV;
            tileWidth = getWidth img div numTilesH
        in if (0 < getHeight img \<and> tileHeight = 0) \<or>
              (0 < getHeight img \<and> 0 < getWidth img \<and> tileWidth = 0) then None
           else writeTiles_loop img maxZError doWrite
                  (tiles (getHeight img) (getWidth img) tileHeight tileWidth) 0 neg_FLT_MAX [])"

section \<open>The tiling search\<close>

text \<open>
  \<^verbatim>\<open>findTiling\<close>.  \<open>findTiling_loop\<close> is the loop over \<^verbatim>\<open>tileWidthArr\<close> on
  \<open>(numTilesVertA, numTilesHoriA, numBytesOptA)\<close>; the result of \<^verbatim>\<open>findTiling\<close> is
  \<open>Some (numTilesVertA, numTilesHoriA, numBytesOptA, maxValInImgA)\<close> for \<^verbatim>\<open>return true\<close>.
\<close>

definition tileWidthArr :: "nat list" where
  "tileWidthArr = [8, 11, 15, 20, 32, 64]"

fun findTiling_loop ::
  "image \<Rightarrow> double \<Rightarrow> nat list \<Rightarrow> nat \<times> nat \<times> nat \<Rightarrow> (nat \<times> nat \<times> nat) option" where
  "findTiling_loop img maxZError [] best = Some best"
| "findTiling_loop img maxZError (tileWidth # rest) best =
     (let numTilesVert = getHeight img div tileWidth;
          numTilesHori = getWidth img div tileWidth
      in if numTilesVert * numTilesHori < 2 then Some best
         else
           (case writeTiles img maxZError numTilesVert numTilesHori False of
              None \<Rightarrow> None
            | Some (numBytes, maxVal, bytes) \<Rightarrow>
                if numBytes > snd (snd best) then Some best
                else if numBytes < snd (snd best) then
                  findTiling_loop img maxZError rest (numTilesVert, numTilesHori, numBytes)
                else findTiling_loop img maxZError rest best))"

definition findTiling :: "image \<Rightarrow> double \<Rightarrow> (nat \<times> nat \<times> nat \<times> float) option" where
  "findTiling img maxZError =
     (case writeTiles img maxZError 1 1 False of
        None \<Rightarrow> None
      | Some (numBytesOptA, maxValInImgA, bytes) \<Rightarrow>
          (case findTiling_loop img maxZError tileWidthArr (1, 1, numBytesOptA) of
             None \<Rightarrow> None
           | Some (tv, th, nb) \<Rightarrow> Some (tv, th, nb, maxValInImgA)))"

section \<open>Reading one tile\<close>

text \<open>
  \<^verbatim>\<open>blockread\<close>.  \<open>blockread_loop\<close> is the loop over the \<open>k\<close> elements still to fill, with the
  accumulator \<open>acc\<close>, its \<open>bits\<close> available bits, the input and \<open>numBytes\<close>; a reload copies
  \<open>min numBytes 4\<close> bytes to the high end of the accumulator.  Its result is the values
  read, the input left and the last \<open>numBytes\<close>.
\<close>

fun blockread_loop ::
  "nat \<Rightarrow> nat \<Rightarrow> nat \<Rightarrow> 32 word \<Rightarrow> byte list \<Rightarrow> nat \<Rightarrow> nat list \<times> byte list \<times> nat" where
  "blockread_loop numBits 0 bits acc src numBytes = ([], src, numBytes)"
| "blockread_loop numBits (Suc k) bits acc src numBytes =
     (if bits \<ge> numBits then
        (case blockread_loop numBits k (bits - numBits) (push_bit numBits acc) src numBytes of
           (vs, src2, left) \<Rightarrow> (unat (drop_bit (32 - numBits) acc) # vs, src2, left))
      else
        (let val0 = (if bits \<noteq> 0 then push_bit (numBits - bits) (drop_bit (32 - bits) acc) else 0);
             nb = min numBytes 4;
             acc1 = (if nb = 4 then word_of_nat (nat_of_bytes (take 4 src))
                     else take_bit (8 * (4 - nb)) acc OR
                          push_bit (8 * (4 - nb)) (word_of_nat (nat_of_bytes (take nb src))));
             bits1 = bits + 32 - numBits;
             val = val0 OR drop_bit bits1 acc1
         in case blockread_loop numBits k bits1 (push_bit (32 - bits1) acc1) (drop nb src)
                   (numBytes - nb) of
              (vs, src2, left) \<Rightarrow> (unat val # vs, src2, left)))"

text \<open>
  \<open>blockread src dsize\<close>: \<open>src\<close> is the input left (\<^verbatim>\<open>size\<close> bytes), \<open>dsize\<close> the size of the
  vector \<^verbatim>\<open>d\<close> at the call; the result is the new contents of \<^verbatim>\<open>d\<close> and the input left.
  \<^verbatim>\<open>numElements * numBits + 7\<close> is unsigned 32-bit arithmetic.
\<close>

definition blockread :: "byte list \<Rightarrow> nat \<Rightarrow> (nat list \<times> byte list) option" where
  "blockread src dsize =
     (case src of
        [] \<Rightarrow> None
      | b0 # src1 \<Rightarrow>
          (let n = stib67 (unat b0 div 64);
               numBits = unat b0 mod 64
           in if numBits \<ge> 32 \<or> n = 0 \<or> length src < 1 + n then None
              else
                (let numElements = nat_of_bytes (take n src1);
                     src2 = drop n src1
                 in if numElements > dsize then None
                    else if numBits = 0 then Some (replicate numElements 0, src2)
                    else
                      (let numBytes = ((numElements * numBits + 7) mod 2 ^ 32) div 8
                       in if length src2 < numBytes then None
                          else (case blockread_loop numBits numElements 0 0 src2 numBytes of
                                  (vs, src3, left) \<Rightarrow>
                                    if left = 0 then Some (vs, src3) else None)))))"

text \<open>\<^verbatim>\<open>std::min(a, b)\<close> on floats: \<^verbatim>\<open>(b < a) ? b : a\<close>.\<close>

definition f_min :: "float \<Rightarrow> float \<Rightarrow> float" where
  "f_min a b = (if f_lt b a then b else a)"

text \<open>\<^verbatim>\<open>static_cast<float>(minval + q * idataVec[i])\<close>\<close>

definition dequantize :: "float \<Rightarrow> double \<Rightarrow> nat \<Rightarrow> float" where
  "dequantize minval q v = d2f (d_add (f2d minval) (d_mul q (u2d v)))"

text \<open>The loops of \<^verbatim>\<open>readZTile\<close> that store one value in every pixel of the rectangle.\<close>

definition fill_cells :: "image \<Rightarrow> (nat \<times> nat) list \<Rightarrow> float \<Rightarrow> image" where
  "fill_cells img cs v = fold (\<lambda>rc im. set_pixel im (fst rc) (snd rc) v) cs img"

text \<open>The loops of the stored tile: four bytes for every valid pixel.\<close>

fun read_stored :: "image \<Rightarrow> (nat \<times> nat) list \<Rightarrow> byte list \<Rightarrow> bool \<times> image \<times> byte list" where
  "read_stored img [] ptr = (True, img, ptr)"
| "read_stored img (rc # cs) ptr =
     (if IsValid img (fst rc) (snd rc) then
        (if length ptr < 4 then (False, img, ptr)
         else read_stored (set_pixel img (fst rc) (snd rc) (float_of_bytes ptr)) cs (drop 4 ptr))
      else read_stored img cs ptr)"

text \<open>
  The loops of the bit-stuffed tile; \<open>idata\<close> is \<^verbatim>\<open>idataVec\<close> from index \<^verbatim>\<open>i\<close> on, so that
  \<^verbatim>\<open>i >= numValid\<close> is \<open>idata = []\<close>, and the last test is \<^verbatim>\<open>i != numValid\<close>.
\<close>

fun read_stuffed ::
  "image \<Rightarrow> (nat \<times> nat) list \<Rightarrow> nat list \<Rightarrow> float \<Rightarrow> double \<Rightarrow> float \<Rightarrow> bool \<times> image" where
  "read_stuffed img [] idata minval q maxZInImg = (idata = [], img)"
| "read_stuffed img (rc # cs) idata minval q maxZInImg =
     (if IsValid img (fst rc) (snd rc) then
        (case idata of
           [] \<Rightarrow> (False, img)
         | v # idata2 \<Rightarrow>
             read_stuffed
               (set_pixel img (fst rc) (snd rc) (f_min maxZInImg (dequantize minval q v)))
               cs idata2 minval q maxZInImg)
      else read_stuffed img cs idata minval q maxZInImg)"

text \<open>
  \<^verbatim>\<open>readZTile\<close>: the result is (returned value, image after the call, input at \<^verbatim>\<open>*ppByte\<close>).
  When the function returns false the pixels already stored stay stored and \<^verbatim>\<open>*ppByte\<close> is
  left as it was; the caller returns false in turn and uses neither the pointer nor the
  byte count.
\<close>

definition readZTile ::
  "image \<Rightarrow> byte list \<Rightarrow> nat \<Rightarrow> nat \<Rightarrow> nat \<Rightarrow> nat \<Rightarrow> double \<Rightarrow> float \<Rightarrow> bool \<times> image \<times> byte list" where
  "readZTile img src r0 r1 c0 c1 maxZErrorInFile maxZInImg =
     (case src of
        [] \<Rightarrow> (False, img, src)
      | b0 # ptr \<Rightarrow>
          (let n = stib67 (unat b0 div 64);
               comprFlag = unat b0 mod 64
           in if n = 0 \<or> comprFlag > 3 then (False, img, src)
              else if comprFlag = 2 then (True, fill_cells img (cells r0 r1 c0 c1) f_zero, ptr)
              else if comprFlag = 0 then
                (case read_stored img (cells r0 r1 c0 c1) ptr of
                   (ok, img2, ptr2) \<Rightarrow> (ok, img2, if ok then ptr2 else src))
              else if length ptr < n then (False, img, src)
              else if comprFlag = 3 then
                (True, fill_cells img (cells r0 r1 c0 c1) (readFlt ptr n), drop n ptr)
              else
                (case blockread (drop n ptr) ((r1 - r0) * (c1 - c0)) of
                   None \<Rightarrow> (False, img, src)
                 | Some (idataVec, ptr2) \<Rightarrow>
                     (case read_stuffed img (cells r0 r1 c0 c1) idataVec (readFlt ptr n)
                             (d_mul maxZErrorInFile d_two) maxZInImg of
                        (ok, img2) \<Rightarrow> (ok, img2, if ok then ptr2 else src)))))"

fun readTiles_loop ::
  "image \<Rightarrow> ((nat \<times> nat) \<times> (nat \<times> nat)) list \<Rightarrow> double \<Rightarrow> float \<Rightarrow> byte list \<Rightarrow> bool \<times> image" where
  "readTiles_loop img [] maxZErrorInFile maxValInImg bArr = (True, img)"
| "readTiles_loop img (t # ts) maxZErrorInFile maxValInImg bArr =
     (case readZTile img bArr (fst (fst t)) (snd (fst t)) (fst (snd t)) (snd (snd t))
             maxZErrorInFile maxValInImg of
        (ok, img2, bArr2) \<Rightarrow>
          if ok then readTiles_loop img2 ts maxZErrorInFile maxValInImg bArr2
          else (False, img2))"

text \<open>Division of \<^verbatim>\<open>int\<close> values truncates towards zero.\<close>

definition tdiv :: "int \<Rightarrow> int \<Rightarrow> int" where
  "tdiv a b = sgn a * sgn b * (\<bar>a\<bar> div \<bar>b\<bar>)"

text \<open>\<^verbatim>\<open>readTiles\<close>; \<open>bArr\<close> holds the \<^verbatim>\<open>nRemainingBytes\<close> bytes that may be read.\<close>

definition readTiles ::
  "image \<Rightarrow> double \<Rightarrow> int \<Rightarrow> int \<Rightarrow> float \<Rightarrow> byte list \<Rightarrow> bool \<times> image" where
  "readTiles img maxZErrorInFile numTilesV numTilesH maxValInImg bArr =
     (if numTilesV = 0 \<or> numTilesH = 0 then (False, img)
      else
        let tileHeight = tdiv (int (getHeight img)) numTilesV;
            tileWidth = tdiv (int (getWidth img)) numTilesH
        in if tileWidth \<le> 0 \<or> tileHeight \<le> 0 then (False, img)
           else readTiles_loop img
                  (tiles (getHeight img) (getWidth img) (nat tileHeight) (nat tileWidth))
                  maxZErrorInFile maxValInImg bArr)"

section \<open>The container\<close>

definition CNT_Z :: int where
  "CNT_Z = 8"

definition CNT_Z_VER :: int where
  "CNT_Z_VER = 11"

text \<open>\<^verbatim>\<open>sCntZImage\<close>, the characters of \<^verbatim>\<open>"CntZImage "\<close>.\<close>

definition sCntZImage :: "byte list" where
  "sCntZImage = [0x43, 0x6E, 0x74, 0x5A, 0x49, 0x6D, 0x61, 0x67, 0x65, 0x20]"

text \<open>\<^verbatim>\<open>TOO_LARGE = 1800 * 1000 * 1000 / sizeof(float)\<close>\<close>

definition TOO_LARGE :: nat where
  "TOO_LARGE = 1800 * 1000 * 1000 div 4"

record InfoFromComputeNumBytes =
  info_maxZError :: double
  info_numTilesVertCnt :: int
  info_numTilesHoriCnt :: int
  info_numBytesCnt :: int
  info_maxCntInImg :: float
  info_numTilesVertZ :: int
  info_numTilesHoriZ :: int
  info_numBytesZ :: int
  info_maxZInImg :: float

definition info0 :: InfoFromComputeNumBytes where
  "info0 = \<lparr>info_maxZError = 0, info_numTilesVertCnt = 0, info_numTilesHoriCnt = 0,
            info_numBytesCnt = 0, info_maxCntInImg = 0, info_numTilesVertZ = 0,
            info_numTilesHoriZ = 0, info_numBytesZ = 0, info_maxZInImg = 0\<rparr>"

text \<open>
  \<^verbatim>\<open>computeNumBytesNeededToWrite\<close>: the size returned (0 when \<^verbatim>\<open>findTiling\<close> fails) and the
  record filled in.  \<open>info0\<close> stands for the record of the caller, whose fields are not
  initialised.
\<close>

definition mask_uniform :: "image \<Rightarrow> bool" where
  "mask_uniform img =
     list_all (\<lambda>i. mask_IsValid (img_mask img) i = mask_IsValid (img_mask img) 0)
       [0..<getSize img]"

definition computeNumBytesNeededToWrite ::
  "image \<Rightarrow> double \<Rightarrow> bool \<Rightarrow> nat \<times> InfoFromComputeNumBytes" where
  "computeNumBytesNeededToWrite img maxZError onlyZPart =
     (let sz0 = 10 + 4 * 4 + 8;
          info1 =
            (if onlyZPart then info0
             else info0\<lparr>info_numTilesVertCnt := 0, info_numTilesHoriCnt := 0,
                        info_maxCntInImg :=
                          (if mask_uniform img then i2f (if mask_IsValid (img_mask img) 0 then 1 else 0)
                           else i2f 1),
                        info_numBytesCnt :=
                          (if mask_uniform img then 0 else RLEsize (img_mask img))\<rparr>);
          sz1 = (if onlyZPart then sz0 else sz0 + 3 * 4 + 4 + nat (info_numBytesCnt info1))
      in case findTiling img maxZError of
           None \<Rightarrow> (0, info1)
         | Some (numTilesVert, numTilesHori, numBytesOpt, maxValInImg) \<Rightarrow>
             (sz1 + 3 * 4 + 4 + numBytesOpt,
              info1\<lparr>info_maxZError := maxZError, info_numTilesVertZ := int numTilesVert,
                     info_numTilesHoriZ := int numTilesHori, info_numBytesZ := int numBytesOpt,
                     info_maxZInImg := maxValInImg\<rparr>))"

text \<open>
  One pass of the \<^verbatim>\<open>do\<close> loop of \<^verbatim>\<open>write\<close>: the sub-header of the part and its payload, \<open>None\<close>
  for \<^verbatim>\<open>return false\<close>.
\<close>

definition write_part ::
  "image \<Rightarrow> double \<Rightarrow> InfoFromComputeNumBytes \<Rightarrow> bool \<Rightarrow> byte list option" where
  "write_part img maxZError info zPart =
     (let numTilesVert = (if zPart then info_numTilesVertZ info else info_numTilesVertCnt info);
          numTilesHori = (if zPart then info_numTilesHoriZ info else info_numTilesHoriCnt info);
          numBytesOpt = (if zPart then info_numBytesZ info else info_numBytesCnt info);
          maxValInImg = (if zPart then info_maxZInImg info else info_maxCntInImg info);
          hdr = bytes_of_int32 numTilesVert @ bytes_of_int32 numTilesHori @
                bytes_of_int32 numBytesOpt @ bytes_of_float maxValInImg
      in if \<not> zPart \<and> numTilesVert = 0 \<and> numTilesHori = 0 then
           (let payload = (if numBytesOpt > 0 then RLEcompress (img_mask img) else [])
            in if int (length payload) \<noteq> numBytesOpt then None else Some (hdr @ payload))
         else
           (case writeTiles img maxZError (nat numTilesVert) (nat numTilesHori) True of
              None \<Rightarrow> None
            | Some (numBytesWritten, maxVal, payload) \<Rightarrow>
                if int numBytesWritten \<noteq> numBytesOpt then None else Some (hdr @ payload)))"

text \<open>\<^verbatim>\<open>Lerc1Image::write\<close>: the bytes stored at \<^verbatim>\<open>*ppByte\<close>, \<open>None\<close> for \<^verbatim>\<open>return false\<close>.\<close>

definition Lerc1Image_write :: "image \<Rightarrow> double \<Rightarrow> bool \<Rightarrow> byte list option" where
  "Lerc1Image_write img maxZError zPart =
     (if getSize img = 0 then None
      else
        let hdr = sCntZImage @ bytes_of_int32 CNT_Z_VER @ bytes_of_int32 CNT_Z @
                  bytes_of_int32 (int (getHeight img)) @ bytes_of_int32 (int (getWidth img)) @
                  bytes_of_double maxZError;
            info = snd (computeNumBytesNeededToWrite img maxZError zPart)
        in if fst (computeNumBytesNeededToWrite img maxZError zPart) = 0 then None
           else if zPart then
             (case write_part img maxZError info True of
                None \<Rightarrow> None
              | Some zp \<Rightarrow> Some (hdr @ zp))
           else
             (case write_part img maxZError info False of
                None \<Rightarrow> None
              | Some cp \<Rightarrow>
                  (case write_part img maxZError info True of
                     None \<Rightarrow> None
                   | Some zp \<Rightarrow> Some (hdr @ cp @ zp))))"

text \<open>
  One pass of the \<^verbatim>\<open>do\<close> loop of \<^verbatim>\<open>read\<close> on the input \<open>buf\<close> (\<^verbatim>\<open>nRemainingBytes\<close> is its
  length): (continue, image, input left).
\<close>

definition set_mask_all :: "image \<Rightarrow> bool \<Rightarrow> image" where
  "set_mask_all img v =
     img\<lparr>img_mask := fold (\<lambda>k bs. mask_Set bs k v) [0..<getSize img] (img_mask img)\<rparr>"

definition read_part :: "image \<Rightarrow> byte list \<Rightarrow> double \<Rightarrow> bool \<Rightarrow> bool \<times> image \<times> byte list" where
  "read_part img buf maxZErrorInFile ZPart =
     (if length buf < 3 * 4 + 4 then (False, img, buf)
      else
        let numTilesVert = int32_of_bytes buf;
            numTilesHori = int32_of_bytes (drop 4 buf);
            numBytes = int32_of_bytes (drop 8 buf);
            maxValInImg = float_of_bytes (drop 12 buf);
            p = drop 16 buf
        in if numBytes < 0 \<or> int (length p) < numBytes then (False, img, p)
           else if ZPart then
             (case readTiles img maxZErrorInFile numTilesVert numTilesHori maxValInImg
                     (take (nat numBytes) p) of
                (ok, img2) \<Rightarrow> (ok, img2, if ok then drop (nat numBytes) p else p))
           else if numTilesVert \<noteq> 0 \<and> numTilesHori \<noteq> 0 then (False, img, p)
           else if numBytes = 0 then
             (if \<not> f_eq maxValInImg f_zero \<and> \<not> f_eq maxValInImg (i2f 1) then (False, img, p)
              else (True, set_mask_all img (\<not> f_eq maxValInImg f_zero), p))
           else
             (case RLEdecompress (img_mask img) (take (nat numBytes) p) of
                (ok, bits2) \<Rightarrow>
                  (ok, img\<lparr>img_mask := bits2\<rparr>, if ok then drop (nat numBytes) p else p)))"

text \<open>
  \<^verbatim>\<open>Lerc1Image::read\<close> on the input \<open>buf\<close>: (returned value, image after the call, input
  left).  When it returns false before \<^verbatim>\<open>resize\<close> the image is the one given.
\<close>

definition Lerc1Image_read ::
  "image \<Rightarrow> byte list \<Rightarrow> double \<Rightarrow> bool \<Rightarrow> bool \<times> image \<times> byte list" where
  "Lerc1Image_read img buf maxZError ZPart =
     (if length buf < 10 then (False, img, buf)
      else if take 10 buf \<noteq> sCntZImage then (False, img, buf)
      else if length (drop 10 buf) < 4 * 4 + 8 then (False, img, drop 10 buf)
      else
        let version = int32_of_bytes (drop 10 buf);
            type = int32_of_bytes (drop 14 buf);
            height = int32_of_bytes (drop 18 buf);
            width = int32_of_bytes (drop 22 buf);
            maxZErrorInFile = double_of_bytes (drop 26 buf);
            p = drop 34 buf
        in if version \<noteq> CNT_Z_VER \<or> type \<noteq> CNT_Z then (False, img, p)
           else if width \<le> 0 \<or> width > 20000 \<or> height \<le> 0 \<or> height > 20000 \<or>
                   d_lt maxZError maxZErrorInFile then (False, img, p)
           else if nat width * nat height > TOO_LARGE then (False, img, p)
           else if ZPart then
             (if width \<noteq> int (getWidth img) \<or> height \<noteq> int (getHeight img) then (False, img, p)
              else read_part img p maxZErrorInFile True)
           else
             (case read_part (resize img (nat width) (nat height)) p maxZErrorInFile False of
                (ok, img2, p2) \<Rightarrow>
                  if ok then read_part img2 p2 maxZErrorInFile True else (False, img2, p2)))"

section \<open>Auxiliary notions for the statements\<close>

text \<open>The position of the pixel \<open>(row, col)\<close> in the row-major sample vector.\<close>

definition cidx :: "image \<Rightarrow> nat \<times> nat \<Rightarrow> nat" where
  "cidx img rc = fst rc * img_width img + snd rc"

text \<open>
  The scan of the tiling search as the spec words it: "stop scanning as soon as a
  candidate's size is not smaller than the current best".  It is compared with
  \<open>findTiling_loop\<close>, the scan of the source.
\<close>

fun findTiling_loop_spec ::
  "image \<Rightarrow> double \<Rightarrow> nat list \<Rightarrow> nat \<times> nat \<times> nat \<Rightarrow> (nat \<times> nat \<times> nat) option" where
  "findTiling_loop_spec img maxZError [] best = Some best"
| "findTiling_loop_spec img maxZError (tileWidth # rest) best =
     (let numTilesVert = getHeight img div tileWidth;
          numTilesHori = getWidth img div tileWidth
      in if numTilesVert * numTilesHori < 2 then Some best
         else
           (case writeTiles img maxZError numTilesVert numTilesHori False of
              None \<Rightarrow> None
            | Some (numBytes, maxVal, bytes) \<Rightarrow>
                if numBytes \<ge> snd (snd best) then Some best
                else findTiling_loop_spec img maxZError rest (numTilesVert, numTilesHori, numBytes)))"

definition findTiling_spec :: "image \<Rightarrow> double \<Rightarrow> (nat \<times> nat \<times> nat \<times> float) option" where
  "findTiling_spec img maxZError =
     (case writeTiles img maxZError 1 1 False of
        None \<Rightarrow> None
      | Some (numBytesOptA, maxValInImgA, bytes) \<Rightarrow>
          (case findTiling_loop_spec img maxZError tileWidthArr (1, 1, numBytesOptA) of
             None \<Rightarrow> None
           | Some (tv, th, nb) \<Rightarrow> Some (tv, th, nb, maxValInImgA)))"

section \<open>Properties of the mask coder\<close>

lemma unat_byte_of_int: "unat (word_of_int k :: byte) = nat (k mod 256)"
  by (simp add: unat_eq_nat_uint uint_word_of_int)

lemma read_write_count:
  assumes "- 32768 \<le> c" "c \<le> 32767"
  shows "read_count (word_of_int (c mod 256)) (word_of_int (c div 256)) = c"
proof -
  define k where "k = c div 256"
  have a: "int (unat (word_of_int (c mod 256) :: byte)) = c mod 256"
    by (simp add: unat_byte_of_int)
  have b: "int (unat (word_of_int k :: byte)) = k mod 256"
    by (simp add: unat_byte_of_int)
  have c: "c = 256 * k + c mod 256" by (simp add: k_def)
  have m: "0 \<le> c mod 256 \<and> c mod 256 < 256" by simp
  show ?thesis
  proof (cases "0 \<le> c")
    case True
    with assms have "0 \<le> k \<and> k < 128" unfolding k_def by presburger
    then have "k mod 256 = k" by simp
    with a b c m True assms show ?thesis
      unfolding read_count_def Let_def k_def [symmetric] by simp
  next
    case False
    with assms have r: "- 128 \<le> k \<and> k < 0" unfolding k_def by presburger
    then have "(k + 256) mod 256 = k + 256" by (intro mod_pos_pos_trivial) auto
    moreover have "(k + 256) mod 256 = k mod 256" by simp
    ultimately have "k mod 256 = k + 256" by simp
    with a b c m False assms show ?thesis
      unfolding read_count_def Let_def k_def [symmetric] by simp
  qed
qed

lemma run_from_bounds: "i \<le> mc \<Longrightarrow> i \<le> run_from b xs i mc \<and> run_from b xs i mc \<le> mc"
  by (induction b xs i mc rule: run_from.induct) auto

lemma run_from_take: "i \<le> mc \<Longrightarrow> take (run_from b xs i mc - i) xs = replicate (run_from b xs i mc - i) b"
proof (induction b xs i mc rule: run_from.induct)
  case (1 b i mc)
  then show ?case by simp
next
  case (2 b x xs i mc)
  show ?case
  proof (cases "i < mc \<and> b = x")
    case True
    then have le: "Suc i \<le> mc" by simp
    from run_from_bounds [OF le, of b xs] have "Suc i \<le> run_from b xs (Suc i) mc" by simp
    then have "run_from b xs (Suc i) mc - i = Suc (run_from b xs (Suc i) mc - Suc i)" by simp
    with True 2 le show ?thesis by simp
  next
    case False
    then show ?thesis using 2 by auto
  qed
qed

lemma run_length_Cons:
  "run_length (b # s') (Suc (length s')) = run_from b s' 1 (min (Suc (length s')) MAX_RUN)"
  by (simp add: run_length_def min_def)

lemma run_length_bounds:
  "1 \<le> run_length (b # s') (Suc (length s')) \<and>
   run_length (b # s') (Suc (length s')) \<le> Suc (length s') \<and>
   run_length (b # s') (Suc (length s')) \<le> MAX_RUN"
proof -
  have "1 \<le> min (Suc (length s')) MAX_RUN" by (simp add: MAX_RUN_def)
  from run_from_bounds [OF this, of b s'] show ?thesis
    unfolding run_length_Cons by simp
qed

lemma run_length_take:
  "take (run_length (b # s') (Suc (length s'))) (b # s') =
   replicate (run_length (b # s') (Suc (length s'))) b"
proof -
  define mc where "mc = min (Suc (length s')) MAX_RUN"
  have mc1: "1 \<le> mc" by (simp add: mc_def MAX_RUN_def)
  define r where "r = run_from b s' 1 mc"
  have r1: "1 \<le> r" using run_from_bounds [OF mc1, of b s'] by (simp add: r_def)
  have rl: "run_length (b # s') (Suc (length s')) = r"
    unfolding run_length_Cons r_def mc_def by simp
  from run_from_take [OF mc1, of b s'] have "take (r - 1) s' = replicate (r - 1) b"
    by (simp add: r_def)
  with r1 have "take r (b # s') = replicate r b"
    by (cases r) simp_all
  with rl show ?thesis by simp
qed

lemma RLE_literal:
  assumes "0 < sz" "length lit \<le> 32767" "int (length lit) \<le> sz"
  shows "RLE_records (write_count (int (length lit)) @ lit @ rest) sz dst =
         RLE_records rest (sz - int (length lit)) (dst @ lit)"
proof -
  have rc: "read_count (word_of_int (int (length lit) mod 256)) (word_of_int (int (length lit) div 256))
        = int (length lit)"
    using assms by (intro read_write_count) auto
  show ?thesis
    apply (subst RLE_records.simps)
    using assms rc by (simp add: write_count_def Let_def)
qed

lemma RLE_repeat:
  assumes "0 < run" "run \<le> 32768" "int run \<le> sz"
  shows "RLE_records (write_count (- int run) @ b # rest) sz dst =
         RLE_records rest (sz - int run) (dst @ replicate run b)"
proof -
  have rc: "read_count (word_of_int ((- int run) mod 256)) (word_of_int ((- int run) div 256))
        = - int run"
    using assms by (intro read_write_count) auto
  show ?thesis
    apply (subst RLE_records.simps)
    using assms rc by (simp add: write_count_def Let_def)
qed

lemma RLE_records_done: "sz \<le> 0 \<Longrightarrow> RLE_records src sz dst = (True, dst, src)"
  by (subst RLE_records.simps) simp

lemma FLUSH_prefix: "FLUSH out lit = out @ FLUSH [] lit"
  by (simp add: FLUSH_def)

lemma loop_Nil: "RLEcompress_loop [] out lit = FLUSH out lit @ write_count EOT"
  by (subst RLEcompress_loop.simps) simp

lemma loop_short_full:
  "run_length (b # s) (Suc (length s)) < MIN_RUN \<Longrightarrow> Suc (length lit) = MAX_RUN \<Longrightarrow>
   RLEcompress_loop (b # s) out lit = RLEcompress_loop s (FLUSH out (lit @ [b])) []"
  by (subst RLEcompress_loop.simps) (simp add: Let_def)

lemma loop_short:
  "run_length (b # s) (Suc (length s)) < MIN_RUN \<Longrightarrow> Suc (length lit) \<noteq> MAX_RUN \<Longrightarrow>
   RLEcompress_loop (b # s) out lit = RLEcompress_loop s out (lit @ [b])"
  by (subst RLEcompress_loop.simps) (simp add: Let_def)

lemma loop_run:
  "\<not> run_length (b # s) (Suc (length s)) < MIN_RUN \<Longrightarrow>
   RLEcompress_loop (b # s) out lit =
   RLEcompress_loop (drop (run_length (b # s) (Suc (length s))) (b # s))
     (FLUSH out lit @ write_count (- int (run_length (b # s) (Suc (length s)))) @ [b]) []"
  by (subst RLEcompress_loop.simps) (simp add: Let_def)

lemma drop_run_shorter:
  "\<not> run_length (b # s) (Suc (length s)) < MIN_RUN \<Longrightarrow>
   length (drop (run_length (b # s) (Suc (length s))) (b # s)) < Suc (length s)"
  by (simp add: MIN_RUN_def)

lemma RLEcompress_loop_prefix:
  "RLEcompress_loop src out lit = out @ RLEcompress_loop src [] lit"
proof (induction "length src" arbitrary: src out lit rule: less_induct)
  case less
  show ?case
  proof (cases src)
    case Nil
    then show ?thesis by (simp add: loop_Nil FLUSH_prefix [of out])
  next
    case (Cons b s)
    have IH: "RLEcompress_loop t p l = p @ RLEcompress_loop t [] l"
      if "length t < Suc (length s)" for t p l
      using less [of t p l] that Cons by simp
    let ?run = "run_length (b # s) (Suc (length s))"
    consider (full) "?run < MIN_RUN" "Suc (length lit) = MAX_RUN"
      | (short) "?run < MIN_RUN" "Suc (length lit) \<noteq> MAX_RUN"
      | (run) "\<not> ?run < MIN_RUN" by blast
    then show ?thesis
    proof cases
      case full
      have "RLEcompress_loop s (FLUSH out (lit @ [b])) [] = FLUSH out (lit @ [b]) @ RLEcompress_loop s [] []"
        by (rule IH) simp
      moreover have "RLEcompress_loop s (FLUSH [] (lit @ [b])) [] = FLUSH [] (lit @ [b]) @ RLEcompress_loop s [] []"
        by (rule IH) simp
      ultimately show ?thesis
        unfolding Cons loop_short_full [OF full] by (simp add: FLUSH_prefix [of out])
    next
      case short
      have "RLEcompress_loop s out (lit @ [b]) = out @ RLEcompress_loop s [] (lit @ [b])"
        by (rule IH) simp
      then show ?thesis unfolding Cons loop_short [OF short] .
    next
      case run
      let ?d = "drop ?run (b # s)"
      let ?w = "write_count (- int ?run) @ [b]"
      have "RLEcompress_loop ?d (FLUSH out lit @ ?w) [] = (FLUSH out lit @ ?w) @ RLEcompress_loop ?d [] []"
        by (rule IH) (rule drop_run_shorter [OF run])
      moreover have "RLEcompress_loop ?d (FLUSH [] lit @ ?w) [] = (FLUSH [] lit @ ?w) @ RLEcompress_loop ?d [] []"
        by (rule IH) (rule drop_run_shorter [OF run])
      ultimately show ?thesis
        unfolding Cons loop_run [OF run] by (simp add: FLUSH_prefix [of out])
    qed
  qed
qed

lemma write_count_EOT: "write_count EOT = [0x00, 0x80]"
  by (simp add: write_count_def EOT_def MAX_RUN_def)

lemma read_count_EOT: "read_count 0x00 0x80 = EOT"
  by (simp add: read_count_def EOT_def MAX_RUN_def)

lemma RLE_roundtrip_loop:
  "length lit < MAX_RUN \<Longrightarrow>
   RLE_records (RLEcompress_loop src [] lit) (int (length lit + length src)) dst =
   (True, dst @ lit @ src, write_count EOT)"
proof (induction "length src" arbitrary: src lit dst rule: less_induct)
  case less
  show ?case
  proof (cases src)
    case Nil
    show ?thesis
    proof (cases "lit = []")
      case True
      then show ?thesis using Nil by (simp add: loop_Nil FLUSH_def RLE_records_done)
    next
      case False
      have "RLE_records (write_count (int (length lit)) @ lit @ write_count EOT) (int (length lit)) dst
            = RLE_records (write_count EOT) (int (length lit) - int (length lit)) (dst @ lit)"
        using False less.prems by (intro RLE_literal) (auto simp: MAX_RUN_def)
      then show ?thesis using Nil False by (simp add: loop_Nil FLUSH_def RLE_records_done)
    qed
  next
    case (Cons b s)
    have IH: "RLE_records (RLEcompress_loop t [] l) (int (length l + length t)) d =
              (True, d @ l @ t, write_count EOT)"
      if "length t < Suc (length s)" "length l < MAX_RUN" for t l d
      using less.hyps [of t l d] that Cons by simp
    let ?run = "run_length (b # s) (Suc (length s))"
    consider (full) "?run < MIN_RUN" "Suc (length lit) = MAX_RUN"
      | (short) "?run < MIN_RUN" "Suc (length lit) \<noteq> MAX_RUN"
      | (run) "\<not> ?run < MIN_RUN" by blast
    then show ?thesis
    proof cases
      case full
      let ?l = "lit @ [b]"
      have e: "RLEcompress_loop src [] lit = write_count (int (length ?l)) @ ?l @ RLEcompress_loop s [] []"
        unfolding Cons loop_short_full [OF full]
        by (subst RLEcompress_loop_prefix) (simp add: FLUSH_def)
      have "RLE_records (write_count (int (length ?l)) @ ?l @ RLEcompress_loop s [] [])
              (int (length lit + length src)) dst
            = RLE_records (RLEcompress_loop s [] []) (int (length lit + length src) - int (length ?l)) (dst @ ?l)"
        using full Cons by (intro RLE_literal) (auto simp: MAX_RUN_def)
      also have "int (length lit + length src) - int (length ?l) = int (length ([]::byte list) + length s)"
        using Cons by simp
      also have "RLE_records (RLEcompress_loop s [] []) (int (length ([]::byte list) + length s)) (dst @ ?l)
                 = (True, (dst @ ?l) @ [] @ s, write_count EOT)"
        by (rule IH) (simp_all add: MAX_RUN_def)
      finally show ?thesis using e Cons by simp
    next
      case short
      have "RLE_records (RLEcompress_loop s [] (lit @ [b])) (int (length (lit @ [b]) + length s)) dst
            = (True, dst @ (lit @ [b]) @ s, write_count EOT)"
        using short less.prems by (intro IH) auto
      then show ?thesis unfolding Cons loop_short [OF short] by simp
    next
      case run
      let ?d = "drop ?run (b # s)"
      have rb: "1 \<le> ?run" "?run \<le> Suc (length s)" "?run \<le> MAX_RUN"
        using run_length_bounds [of b s] by auto
      have e: "RLEcompress_loop src [] lit = FLUSH [] lit @ write_count (- int ?run) @ b # RLEcompress_loop ?d [] []"
        unfolding Cons loop_run [OF run]
        by (subst RLEcompress_loop_prefix) simp
      have tk: "replicate ?run b @ ?d = b # s"
        using run_length_take [of b s] append_take_drop_id [of ?run "b # s"] by simp
      have ld: "int (length ?d) = int (Suc (length s)) - int ?run"
        using rb by simp
      have rep: "RLE_records (write_count (- int ?run) @ b # RLEcompress_loop ?d [] []) (int (Suc (length s))) (dst @ lit)
        = RLE_records (RLEcompress_loop ?d [] []) (int (Suc (length s)) - int ?run) ((dst @ lit) @ replicate ?run b)"
        using rb by (intro RLE_repeat) (auto simp: MAX_RUN_def)
      have fin: "RLE_records (RLEcompress_loop ?d [] []) (int (length ([]::byte list) + length ?d)) ((dst @ lit) @ replicate ?run b)
        = (True, ((dst @ lit) @ replicate ?run b) @ [] @ ?d, write_count EOT)"
        by (rule IH) (use drop_run_shorter [OF run] in \<open>simp_all add: MAX_RUN_def\<close>)
      have main: "RLE_records (write_count (- int ?run) @ b # RLEcompress_loop ?d [] []) (int (Suc (length s))) (dst @ lit)
         = (True, dst @ lit @ b # s, write_count EOT)"
        using rep fin ld tk by (simp del: replicate_append_same)
      show ?thesis
      proof (cases "lit = []")
        case True
        then show ?thesis using e main Cons by (simp add: FLUSH_def)
      next
        case False
        have "RLE_records (write_count (int (length lit)) @ lit @ (write_count (- int ?run) @ b # RLEcompress_loop ?d [] []))
              (int (length lit + length src)) dst
           = RLE_records (write_count (- int ?run) @ b # RLEcompress_loop ?d [] [])
              (int (length lit + length src) - int (length lit)) (dst @ lit)"
          using False less.prems Cons by (intro RLE_literal) (auto simp: MAX_RUN_def)
        then show ?thesis using e main Cons False by (simp add: FLUSH_def)
      qed
    qed
  qed
qed

lemma RLEcompress_ends: "\<exists>pre. RLEcompress_loop src out lit = pre @ write_count EOT"
proof (induction "length src" arbitrary: src out lit rule: less_induct)
  case less
  show ?case
  proof (cases src)
    case Nil
    then show ?thesis by (simp add: loop_Nil)
  next
    case (Cons b s)
    have IH: "\<exists>pre. RLEcompress_loop t p l = pre @ write_count EOT"
      if "length t < Suc (length s)" for t p l
      using less [of t p l] that Cons by simp
    let ?run = "run_length (b # s) (Suc (length s))"
    consider (full) "?run < MIN_RUN" "Suc (length lit) = MAX_RUN"
      | (short) "?run < MIN_RUN" "Suc (length lit) \<noteq> MAX_RUN"
      | (run) "\<not> ?run < MIN_RUN" by blast
    then show ?thesis
    proof cases
      case full
      show ?thesis unfolding Cons loop_short_full [OF full] by (rule IH) simp
    next
      case short
      show ?thesis unfolding Cons loop_short [OF short] by (rule IH) simp
    next
      case run
      show ?thesis unfolding Cons loop_run [OF run] by (rule IH) (rule drop_run_shorter [OF run])
    qed
  qed
qed

lemma size_Nil: "RLEsize_loop [] osz oddrun = (if oddrun \<noteq> 0 then osz + int oddrun + 2 else osz)"
  by (subst RLEsize_loop.simps) simp

lemma size_short_full:
  "run_length (b # s) (Suc (length s)) < MIN_RUN \<Longrightarrow> Suc oddrun = MAX_RUN \<Longrightarrow>
   RLEsize_loop (b # s) osz oddrun = RLEsize_loop s (SIMFLUSH osz (Suc oddrun)) 0"
  by (subst RLEsize_loop.simps) (simp add: Let_def)

lemma size_short:
  "run_length (b # s) (Suc (length s)) < MIN_RUN \<Longrightarrow> Suc oddrun \<noteq> MAX_RUN \<Longrightarrow>
   RLEsize_loop (b # s) osz oddrun = RLEsize_loop s osz (Suc oddrun)"
  by (subst RLEsize_loop.simps) (simp add: Let_def)

lemma size_run:
  "\<not> run_length (b # s) (Suc (length s)) < MIN_RUN \<Longrightarrow>
   RLEsize_loop (b # s) osz oddrun =
   RLEsize_loop (drop (run_length (b # s) (Suc (length s))) (b # s)) (SIMFLUSH osz oddrun + 3) 0"
  by (subst RLEsize_loop.simps) (simp add: Let_def)

lemma length_FLUSH: "int (length (FLUSH out lit)) = SIMFLUSH (int (length out)) (length lit)"
  by (simp add: FLUSH_def SIMFLUSH_def write_count_def)

lemma RLEcompress_size:
  "int (length (RLEcompress_loop src out lit)) = RLEsize_loop src (int (length out) + 2) (length lit)"
proof (induction "length src" arbitrary: src out lit rule: less_induct)
  case less
  show ?case
  proof (cases src)
    case Nil
    then show ?thesis
      by (simp add: loop_Nil size_Nil FLUSH_def write_count_def)
  next
    case (Cons b s)
    have IH: "int (length (RLEcompress_loop t p l)) = RLEsize_loop t (int (length p) + 2) (length l)"
      if "length t < Suc (length s)" for t p l
      using less [of t p l] that Cons by simp
    let ?run = "run_length (b # s) (Suc (length s))"
    consider (full) "?run < MIN_RUN" "Suc (length lit) = MAX_RUN"
      | (short) "?run < MIN_RUN" "Suc (length lit) \<noteq> MAX_RUN"
      | (run) "\<not> ?run < MIN_RUN" by blast
    then show ?thesis
    proof cases
      case full
      have "int (length (RLEcompress_loop s (FLUSH out (lit @ [b])) [])) =
            RLEsize_loop s (int (length (FLUSH out (lit @ [b]))) + 2) (length ([]::byte list))"
        by (rule IH) simp
      then show ?thesis
        unfolding Cons loop_short_full [OF full] size_short_full [OF full]
        by (simp add: FLUSH_def SIMFLUSH_def write_count_def)
    next
      case short
      have "int (length (RLEcompress_loop s out (lit @ [b]))) =
            RLEsize_loop s (int (length out) + 2) (length (lit @ [b]))"
        by (rule IH) simp
      then show ?thesis
        unfolding Cons loop_short [OF short] size_short [OF short] by simp
    next
      case run
      let ?d = "drop ?run (b # s)"
      let ?o = "FLUSH out lit @ write_count (- int ?run) @ [b]"
      have "int (length (RLEcompress_loop ?d ?o [])) =
            RLEsize_loop ?d (int (length ?o) + 2) (length ([]::byte list))"
        by (rule IH) (rule drop_run_shorter [OF run])
      moreover have "int (length ?o) + 2 = SIMFLUSH (int (length out) + 2) (length lit) + 3"
        by (simp add: FLUSH_def SIMFLUSH_def write_count_def)
      ultimately show ?thesis
        unfolding Cons loop_run [OF run] size_run [OF run] by (simp add: add.commute)
    qed
  qed
qed



lemma RLE_records_short:
  "0 < sz \<Longrightarrow> length src < 2 \<Longrightarrow> RLE_records src sz dst = (False, dst, src)"
  by (subst RLE_records.simps) (auto split: list.splits)

lemma RLE_records_repeat_trunc:
  "0 < sz \<Longrightarrow> read_count lo hi < 0 \<Longrightarrow> RLE_records [lo, hi] sz dst = (False, dst, [])"
  by (subst RLE_records.simps) (simp add: Let_def)

lemma RLE_records_repeat_over:
  "0 < sz \<Longrightarrow> read_count lo hi < 0 \<Longrightarrow> sz + read_count lo hi < 0 \<Longrightarrow>
   RLE_records (lo # hi # b # rest) sz dst = (False, dst, rest)"
  by (subst RLE_records.simps) (simp add: Let_def)

lemma RLE_records_repeat_ok:
  "0 < sz \<Longrightarrow> read_count lo hi < 0 \<Longrightarrow> \<not> sz + read_count lo hi < 0 \<Longrightarrow>
   RLE_records (lo # hi # b # rest) sz dst =
   RLE_records rest (sz + read_count lo hi) (dst @ replicate (nat (- read_count lo hi)) b)"
  by (subst RLE_records.simps) (simp add: Let_def)

lemma RLE_records_literal_bad:
  "0 < sz \<Longrightarrow> \<not> read_count lo hi < 0 \<Longrightarrow>
   sz < read_count lo hi \<or> int (length rest) < read_count lo hi \<Longrightarrow>
   RLE_records (lo # hi # rest) sz dst = (False, dst, rest)"
  by (subst RLE_records.simps) (auto simp add: Let_def)

lemma RLE_records_literal_ok:
  "0 < sz \<Longrightarrow> \<not> read_count lo hi < 0 \<Longrightarrow>
   \<not> (sz < read_count lo hi \<or> int (length rest) < read_count lo hi) \<Longrightarrow>
   RLE_records (lo # hi # rest) sz dst =
   RLE_records (drop (nat (read_count lo hi)) rest) (sz - read_count lo hi)
     (dst @ take (nat (read_count lo hi)) rest)"
  by (subst RLE_records.simps) (auto simp add: Let_def)

lemma RLE_records_length:
  "0 \<le> sz \<Longrightarrow> RLE_records src sz dst = (ok, dst', rest) \<Longrightarrow>
   int (length dst') \<le> int (length dst) + sz \<and> (ok \<longrightarrow> int (length dst') = int (length dst) + sz)"
proof (induction "length src" arbitrary: src sz dst rule: less_induct)
  case less
  note IH = less.hyps
  show ?case
  proof (cases "sz \<le> 0")
    case True
    then show ?thesis using less.prems by (simp add: RLE_records_done)
  next
    case False
    then have pos: "0 < sz" by simp
    show ?thesis
    proof (cases "length src < 2")
      case True
      then show ?thesis using less.prems pos by (simp add: RLE_records_short)
    next
      case False
      then obtain lo hi t where src: "src = lo # hi # t"
        by (cases src; cases "tl src") auto
      let ?c = "read_count lo hi"
      consider (rt) "?c < 0" "t = []"
        | (ro) b r where "?c < 0" "t = b # r" "sz + ?c < 0"
        | (rk) b r where "?c < 0" "t = b # r" "\<not> sz + ?c < 0"
        | (lb) "\<not> ?c < 0" "sz < ?c \<or> int (length t) < ?c"
        | (lk) "\<not> ?c < 0" "\<not> (sz < ?c \<or> int (length t) < ?c)"
      proof (cases "?c < 0")
        case True
        note neg = this
        show ?thesis
        proof (cases t)
          case Nil
          with neg rt show ?thesis by blast
        next
          case (Cons b r)
          with neg ro [of b r] rk [of b r] show ?thesis by blast
        qed
      next
        case False
        with lb lk show ?thesis by blast
      qed
      then show ?thesis
      proof cases
        case rt
        then show ?thesis using less.prems pos src by (simp add: RLE_records_repeat_trunc)
      next
        case ro
        then show ?thesis using less.prems pos src by (simp add: RLE_records_repeat_over)
      next
        case rk
        have eq: "RLE_records r (sz + ?c) (dst @ replicate (nat (- ?c)) b) = (ok, dst', rest)"
          using less.prems pos src rk by (simp add: RLE_records_repeat_ok)
        have "int (length dst') \<le> int (length (dst @ replicate (nat (- ?c)) b)) + (sz + ?c) \<and>
              (ok \<longrightarrow> int (length dst') = int (length (dst @ replicate (nat (- ?c)) b)) + (sz + ?c))"
          using rk src by (intro IH [OF _ _ eq]) auto
        then show ?thesis using rk by auto
      next
        case lb
        then show ?thesis using less.prems pos src by (simp add: RLE_records_literal_bad)
      next
        case lk
        have eq: "RLE_records (drop (nat ?c) t) (sz - ?c) (dst @ take (nat ?c) t) = (ok, dst', rest)"
          using less.prems pos src lk by (simp add: RLE_records_literal_ok)
        have "int (length dst') \<le> int (length (dst @ take (nat ?c) t)) + (sz - ?c) \<and>
              (ok \<longrightarrow> int (length dst') = int (length (dst @ take (nat ?c) t)) + (sz - ?c))"
          using lk src by (intro IH [OF _ _ eq]) auto
        then show ?thesis using lk by auto
      qed
    qed
  qed
qed




subsection \<open>Compression followed by decompression\<close>

text \<open>
  Claim C2.  For every mask buffer \<open>bits\<close> (of any size, with any bit pattern), decompressing
  the output of \<^verbatim>\<open>RLEcompress\<close> into a mask buffer of the same size returns true and leaves
  exactly \<open>bits\<close> in it; the compressed output ends with the two bytes of the count -32768;
  and the byte count returned by \<^verbatim>\<open>RLEcompress\<close> is at most the value of \<^verbatim>\<open>RLEsize\<close>.
\<close>

theorem RLE_compress_decompress:
  "length old = length bits \<Longrightarrow>
   RLEdecompress old (RLEcompress bits) = (True, bits) \<and>
   (\<exists>pre. RLEcompress bits = pre @ write_count (- 32768)) \<and>
   RLEcompress_ret bits \<le> RLEsize bits"
proof -
  assume len: "length old = length bits"
  have "RLE_records (RLEcompress_loop bits [] []) (int (length ([]::byte list) + length bits)) []
        = (True, [] @ [] @ bits, write_count EOT)"
    by (rule RLE_roundtrip_loop) (simp add: MAX_RUN_def)
  then have 1: "RLEdecompress old (RLEcompress bits) = (True, bits)"
    using len by (simp add: RLEdecompress_def RLEcompress_def write_count_EOT read_count_EOT)
  have 2: "\<exists>pre. RLEcompress bits = pre @ write_count (- 32768)"
    using RLEcompress_ends [of bits "[]" "[]"] by (simp add: RLEcompress_def EOT_def MAX_RUN_def)
  have 3: "RLEcompress_ret bits \<le> RLEsize bits"
    using RLEcompress_size [of bits "[]" "[]"]
    by (simp add: RLEcompress_ret_def RLEcompress_def RLEsize_def)
  from 1 2 3 show ?thesis by blast
qed

theorem RLE_compress_decompress_witness:
  "length [0, 0, 0 :: byte] = length [0xFF, 0x0F, 0x00 :: byte] \<and>
   RLEdecompress [0, 0, 0] (RLEcompress [0xFF, 0x0F, 0x00]) = (True, [0xFF, 0x0F, 0x00]) \<and>
   (\<exists>pre. RLEcompress [0xFF, 0x0F, 0x00] = pre @ write_count (- 32768)) \<and>
   RLEcompress_ret [0xFF, 0x0F, 0x00] \<le> RLEsize [0xFF, 0x0F, 0x00]"
  using RLE_compress_decompress [of "[0, 0, 0]" "[0xFF, 0x0F, 0x00]"] by simp

subsection \<open>Malformed streams are refused\<close>



subsection \<open>Writes stay inside the mask buffer\<close>

text \<open>
  Claim C10.  \<open>dst\<close> being the bytes the record loop has written from the start of the mask
  buffer, on every input their number is at most \<^verbatim>\<open>size()\<close>, and the mask buffer after the
  call holds exactly these bytes followed by the old bytes that no write reached.  Whenever
  \<^verbatim>\<open>RLEdecompress\<close> returns true their number is exactly \<^verbatim>\<open>size()\<close>, so the buffer after the
  call is the bytes written, the whole mask and nothing more; the buffer keeps its size.  A
  literal count larger than the input left or than the mask left, and a repeat count larger
  than the mask left, end the loop with nothing more written.
\<close>

theorem RLEdecompress_writes_within_mask:
  "RLE_records src (int (length bits)) [] = (ok, dst, rest) \<Longrightarrow>
   length dst \<le> length bits \<and>
   (fst (RLEdecompress bits src) \<longrightarrow> length dst = length bits) \<and>
   length (snd (RLEdecompress bits src)) = length bits \<and>
   snd (RLEdecompress bits src) = dst @ drop (length dst) bits \<and>
   (fst (RLEdecompress bits src) \<longrightarrow> snd (RLEdecompress bits src) = dst) \<and>
   (0 < sz \<and> 0 \<le> read_count lo hi \<and>
    (sz < read_count lo hi \<or> int (length t) < read_count lo hi) \<longrightarrow>
      RLE_records (lo # hi # t) sz d = (False, d, t)) \<and>
   (0 < sz \<and> read_count lo hi < 0 \<and> sz + read_count lo hi < 0 \<longrightarrow>
      RLE_records (lo # hi # b # t) sz d = (False, d, t))"
proof -
  assume r: "RLE_records src (int (length bits)) [] = (ok, dst, rest)"
  from RLE_records_length [OF _ r]
  have l: "length dst \<le> length bits" and k: "ok \<longrightarrow> length dst = length bits" by auto
  have s: "snd (RLEdecompress bits src) = dst @ drop (length dst) bits"
    using r by (simp add: RLEdecompress_def Let_def split: list.splits)
  have f: "fst (RLEdecompress bits src) \<longrightarrow> ok"
    using r by (simp add: RLEdecompress_def Let_def split: list.splits)
  have c1: "0 < sz \<and> 0 \<le> read_count lo hi \<and>
    (sz < read_count lo hi \<or> int (length t) < read_count lo hi) \<longrightarrow>
      RLE_records (lo # hi # t) sz d = (False, d, t)"
    using RLE_records_literal_bad [of sz lo hi t d] by auto
  have c2: "0 < sz \<and> read_count lo hi < 0 \<and> sz + read_count lo hi < 0 \<longrightarrow>
      RLE_records (lo # hi # b # t) sz d = (False, d, t)"
    using RLE_records_repeat_over [of sz lo hi b t d] by auto
  from l k s f c1 c2 show ?thesis by auto
qed

theorem RLEdecompress_writes_within_mask_witness:
  "RLE_records [0xFD, 0xFF, 0x07, 0x00, 0x80] (int (length [0, 0, 0 :: byte])) [] =
     (True, [0x07, 0x07, 0x07], [0x00, 0x80]) \<and>
   length [0x07, 0x07, 0x07 :: byte] \<le> length [0, 0, 0 :: byte] \<and>
   fst (RLEdecompress [0, 0, 0] [0xFD, 0xFF, 0x07, 0x00, 0x80]) \<and>
   length (snd (RLEdecompress [0, 0, 0] [0xFD, 0xFF, 0x07, 0x00, 0x80])) = length [0, 0, 0 :: byte] \<and>
   snd (RLEdecompress [0, 0, 0] [0xFD, 0xFF, 0x07, 0x00, 0x80]) = [0x07, 0x07, 0x07] \<and>
   RLE_records [0x04, 0x00, 0x01] 3 [0x09] = (False, [0x09], [0x01]) \<and>
   RLE_records [0xFC, 0xFF, 0x01, 0x02] 3 [0x09] = (False, [0x09], [0x02])"
proof -
  have rc: "read_count 0xFD 0xFF = - 3" "read_count 0x00 0x80 = - 32768"
    "read_count 0x04 0x00 = 4" "read_count 0xFC 0xFF = - 4"
    by (simp_all add: read_count_def)
  have r: "RLE_records [0xFD, 0xFF, 0x07, 0x00, 0x80] (int (length [0, 0, 0 :: byte])) [] =
     (True, [0x07, 0x07, 0x07], [0x00, 0x80])"
    by (simp add: RLE_records.simps rc numeral_3_eq_3)
  have f: "fst (RLEdecompress [0, 0, 0] [0xFD, 0xFF, 0x07, 0x00, 0x80])"
    using r by (simp add: RLEdecompress_def rc EOT_def MAX_RUN_def)
  from RLEdecompress_writes_within_mask [OF r, of 3 "0x04" "0x00" "[0x01]" "[0x09]" ]
    RLEdecompress_writes_within_mask [OF r, of 3 "0xFC" "0xFF" "[0x02]" "[0x09]" "0x01"]
  show ?thesis using r f by (simp add: rc)
qed

section \<open>Properties of the tiling search and of the container header\<close>

lemma length_bytes_of_nat [simp]: "length (bytes_of_nat n v) = n"
  by (induction n arbitrary: v) simp_all

lemma writeTile_False_nil:
  "writeTile img e False t = Some (zMax, n, bytes) \<Longrightarrow> bytes = []"
  by (auto simp: writeTile_def Let_def split: prod.splits option.splits if_splits)

lemma writeTile_dry:
  "writeTile img e True t = Some (zMax, n, bytes) \<Longrightarrow>
   writeTile img e False t = Some (zMax, n, []) \<and> length bytes = n"
  by (auto simp: writeTile_def Let_def writeFlt_def bytes_of_float_def
           split: prod.splits option.splits if_splits)

lemma writeTiles_loop_False_nil:
  "writeTiles_loop img e False ts nb mv [] = Some (nb2, mv2, out2) \<Longrightarrow> out2 = []"
proof (induction ts arbitrary: nb mv)
  case Nil
  then show ?case by simp
next
  case (Cons t ts)
  then show ?case
    by (auto split: option.splits dest!: writeTile_False_nil)
qed

lemma writeTiles_loop_dry:
  "writeTiles_loop img e True ts nb mv out = Some (nb2, mv2, out2) \<Longrightarrow>
   writeTiles_loop img e False ts nb mv [] = Some (nb2, mv2, []) \<and>
   length out2 + nb = length out + nb2"
proof (induction ts arbitrary: nb mv out)
  case Nil
  then show ?case by simp
next
  case (Cons t ts)
  from Cons.prems obtain zMax n bytes where
    wt: "writeTile img e True t = Some (zMax, n, bytes)" and
    rest: "writeTiles_loop img e True ts (nb + n) (if f_lt mv zMax then zMax else mv) (out @ bytes)
           = Some (nb2, mv2, out2)"
    by (auto split: option.splits)
  from writeTile_dry [OF wt] have d: "writeTile img e False t = Some (zMax, n, [])"
    and l: "length bytes = n" by auto
  from Cons.IH [OF rest] d l show ?case by simp
qed

lemma writeTiles_False_nil:
  "writeTiles img e tv th False = Some (nb, mv, out) \<Longrightarrow> out = []"
  by (auto simp: writeTiles_def Let_def split: if_splits dest: writeTiles_loop_False_nil)

lemma writeTiles_dry:
  "writeTiles img e tv th True = Some (nb, mv, out) \<Longrightarrow>
   writeTiles img e tv th False = Some (nb, mv, []) \<and> length out = nb"
  by (auto simp: writeTiles_def Let_def split: if_splits dest: writeTiles_loop_dry)

lemma findTiling_loop_inv:
  "findTiling_loop img e ws (tv0, th0, nb0) = Some (tv, th, nb) \<Longrightarrow>
   \<exists>mv. writeTiles img e tv0 th0 False = Some (nb0, mv, []) \<Longrightarrow>
   (\<exists>mv. writeTiles img e tv th False = Some (nb, mv, [])) \<and> nb \<le> nb0"
proof (induction ws arbitrary: tv0 th0 nb0)
  case Nil
  then show ?case by simp
next
  case (Cons w ws)
  let ?tv = "getHeight img div w" and ?th = "getWidth img div w"
  show ?case
  proof (cases "?tv * ?th < 2")
    case True
    with Cons.prems show ?thesis by (simp add: Let_def)
  next
    case False
    show ?thesis
    proof (cases "writeTiles img e ?tv ?th False")
      case None
      with False Cons.prems show ?thesis by (simp add: Let_def)
    next
      case (Some r)
      obtain n mv bs where r: "r = (n, mv, bs)" by (cases r) auto
      have bs: "bs = []" using Some r writeTiles_False_nil by blast
      consider (gt) "n > nb0" | (lt) "n < nb0" | (eq) "n = nb0" by linarith
      then show ?thesis
      proof cases
        case gt
        with False Some r Cons.prems show ?thesis by (simp add: Let_def)
      next
        case lt
        with False Some r Cons.prems(1)
        have "findTiling_loop img e ws (?tv, ?th, n) = Some (tv, th, nb)" by (simp add: Let_def)
        from Cons.IH [OF this] Some r bs lt show ?thesis by auto
      next
        case eq
        with False Some r Cons.prems(1)
        have "findTiling_loop img e ws (tv0, th0, nb0) = Some (tv, th, nb)" by (simp add: Let_def)
        from Cons.IH [OF this Cons.prems(2)] show ?thesis .
      qed
    qed
  qed
qed

text \<open>C7 PLACEHOLDER\<close>

theorem findTiling_not_larger_than_baseline:
  "findTiling img maxZError = Some (numTilesVert, numTilesHori, numBytesOpt, maxValInImg) \<Longrightarrow>
   (\<exists>base mvb mv.
      writeTiles img maxZError 1 1 False = Some (base, mvb, []) \<and>
      writeTiles img maxZError numTilesVert numTilesHori False = Some (numBytesOpt, mv, []) \<and>
      numBytesOpt \<le> base \<and>
      (\<forall>n mv2 out. writeTiles img maxZError 1 1 True = Some (n, mv2, out) \<longrightarrow> length out = base)) \<and>
   (\<forall>n mv2 out.
      writeTiles img maxZError numTilesVert numTilesHori True = Some (n, mv2, out) \<longrightarrow>
      length out = numBytesOpt)"
proof -
  assume ft: "findTiling img maxZError = Some (numTilesVert, numTilesHori, numBytesOpt, maxValInImg)"
  then obtain base mvb bs where
    b: "writeTiles img maxZError 1 1 False = Some (base, mvb, bs)" and
    l: "findTiling_loop img maxZError tileWidthArr (1, 1, base) =
        Some (numTilesVert, numTilesHori, numBytesOpt)"
    by (auto simp: findTiling_def split: option.splits)
  have bs: "bs = []" using b writeTiles_False_nil by blast
  from findTiling_loop_inv [OF l] b bs obtain mv where
    c: "writeTiles img maxZError numTilesVert numTilesHori False = Some (numBytesOpt, mv, [])"
    and le: "numBytesOpt \<le> base" by auto
  have w1: "length out = base" if "writeTiles img maxZError 1 1 True = Some (n, mv2, out)" for n mv2 out
    using writeTiles_dry [OF that] b by simp
  have w2: "length out = numBytesOpt"
    if "writeTiles img maxZError numTilesVert numTilesHori True = Some (n, mv2, out)" for n mv2 out
    using writeTiles_dry [OF that] c by simp
  from b bs c le w1 w2 show ?thesis by blast
qed

text \<open>C5 PLACEHOLDER\<close>

theorem read_rejects_bad_header:
  "length buf < 10 \<or> take 10 buf \<noteq> sCntZImage \<or>
   int32_of_bytes (drop 10 buf) \<noteq> 11 \<or>
   int32_of_bytes (drop 14 buf) \<noteq> 8 \<or>
   int32_of_bytes (drop 18 buf) < 1 \<or> int32_of_bytes (drop 18 buf) > 20000 \<or>
   int32_of_bytes (drop 22 buf) < 1 \<or> int32_of_bytes (drop 22 buf) > 20000 \<or>
   nat (int32_of_bytes (drop 22 buf)) * nat (int32_of_bytes (drop 18 buf)) > TOO_LARGE \<or>
   d_lt maxZError (double_of_bytes (drop 26 buf)) \<Longrightarrow>
   fst (Lerc1Image_read img buf maxZError ZPart) = False \<and>
   fst (snd (Lerc1Image_read img buf maxZError ZPart)) = img"
  by (auto simp: Lerc1Image_read_def Let_def CNT_Z_def CNT_Z_VER_def)

section \<open>Properties of the tile decoder\<close>

lemma set_cells: "set (cells r0 r1 c0 c1) = {r0..<r1} \<times> {c0..<c1}"
  by (simp add: cells_def)

lemma distinct_cells: "distinct (cells r0 r1 c0 c1)"
  by (simp add: cells_def distinct_product)

lemma cidx_inj:
  assumes "snd a < img_width img" "snd b < img_width img" "cidx img a = cidx img b"
  shows "a = b"
proof -
  let ?W = "img_width img"
  have "(fst a * ?W + snd a) div ?W = fst a" "(fst a * ?W + snd a) mod ?W = snd a"
    using assms(1) by simp_all
  moreover have "(fst b * ?W + snd b) div ?W = fst b" "(fst b * ?W + snd b) mod ?W = snd b"
    using assms(2) by simp_all
  ultimately have "fst a = fst b" "snd a = snd b" using assms(3) by (simp_all add: cidx_def)
  then show ?thesis by (simp add: prod_eq_iff)
qed

lemma cidx_bound:
  assumes "fst a < img_height img" "snd a < img_width img"
    "length (img_data img) = img_width img * img_height img"
  shows "cidx img a < length (img_data img)"
proof -
  have "fst a * img_width img + snd a < (fst a + 1) * img_width img" using assms(2) by simp
  also have "\<dots> \<le> img_height img * img_width img"
    using assms(1) by (intro mult_le_mono1) simp
  finally show ?thesis using assms(3) by (simp add: cidx_def mult.commute)
qed

lemma set_pixel_fields [simp]:
  "img_width (set_pixel img r c v) = img_width img"
  "img_height (set_pixel img r c v) = img_height img"
  "img_mask (set_pixel img r c v) = img_mask img"
  "length (img_data (set_pixel img r c v)) = length (img_data img)"
  by (simp_all add: set_pixel_def)

lemma IsValid_set_pixel [simp]: "IsValid (set_pixel img r c v) r2 c2 = IsValid img r2 c2"
  by (simp add: IsValid_def)

lemma cidx_set_pixel [simp]: "cidx (set_pixel img r c v) = cidx img"
  by (rule ext) (simp add: cidx_def)

lemma data_set_pixel:
  "img_data (set_pixel img r c v) ! i =
     (if i = cidx img (r, c) \<and> i < length (img_data img) then v else img_data img ! i)"
  by (auto simp: set_pixel_def cidx_def list_update_beyond)

lemma pixel_cidx: "pixel img r c = img_data img ! cidx img (r, c)"
  by (simp add: pixel_def cidx_def)

lemma fill_cells_fields [simp]:
  "img_width (fill_cells img cs v) = img_width img"
  "img_height (fill_cells img cs v) = img_height img"
  "img_mask (fill_cells img cs v) = img_mask img"
  "length (img_data (fill_cells img cs v)) = length (img_data img)"
  by (induction cs arbitrary: img; simp add: fill_cells_def)+

lemma data_fill_cells:
  "\<forall>rc\<in>set cs. cidx img rc < length (img_data img) \<Longrightarrow>
   img_data (fill_cells img cs v) ! i =
     (if i \<in> cidx img ` set cs then v else img_data img ! i)"
proof (induction cs arbitrary: img)
  case Nil
  then show ?case by (simp add: fill_cells_def)
next
  case (Cons rc cs)
  let ?img = "set_pixel img (fst rc) (snd rc) v"
  have f: "fill_cells img (rc # cs) v = fill_cells ?img cs v" by (simp add: fill_cells_def)
  have "\<forall>x\<in>set cs. cidx ?img x < length (img_data ?img)" using Cons.prems by simp
  from Cons.IH [OF this] have
    "img_data (fill_cells ?img cs v) ! i = (if i \<in> cidx img ` set cs then v else img_data ?img ! i)"
    by simp
  moreover have "img_data ?img ! i = (if i = cidx img rc then v else img_data img ! i)"
    using Cons.prems data_set_pixel [of img "fst rc" "snd rc" v i] by auto
  ultimately show ?case unfolding f by auto
qed

lemma cells_in_image:
  assumes "r1 \<le> img_height img" "c1 \<le> img_width img"
    "length (img_data img) = img_width img * img_height img"
  shows "\<forall>rc\<in>set (cells r0 r1 c0 c1). cidx img rc < length (img_data img)"
proof
  fix rc assume "rc \<in> set (cells r0 r1 c0 c1)"
  then have "fst rc < img_height img" "snd rc < img_width img"
    using assms(1,2) by (auto simp: set_cells)
  then show "cidx img rc < length (img_data img)" by (rule cidx_bound) (rule assms(3))
qed

lemma pixel_fill_tile:
  assumes "r1 \<le> img_height img" "c1 \<le> img_width img"
    "length (img_data img) = img_width img * img_height img"
    and "col < img_width img"
  shows "pixel (fill_cells img (cells r0 r1 c0 c1) v) row col =
         (if r0 \<le> row \<and> row < r1 \<and> c0 \<le> col \<and> col < c1 then v else pixel img row col)"
proof -
  let ?cs = "cells r0 r1 c0 c1"
  have in_img: "\<forall>rc\<in>set ?cs. cidx img rc < length (img_data img)"
    by (rule cells_in_image [OF assms(1-3)])
  have mem: "cidx img (row, col) \<in> cidx img ` set ?cs \<longleftrightarrow> (row, col) \<in> set ?cs"
  proof
    assume "cidx img (row, col) \<in> cidx img ` set ?cs"
    then obtain rc where rc: "rc \<in> set ?cs" "cidx img (row, col) = cidx img rc" by auto
    then have "snd rc < img_width img" using assms(2) by (auto simp: set_cells)
    with rc assms(4) have "(row, col) = rc" by (intro cidx_inj [of _ img]) auto
    with rc show "(row, col) \<in> set ?cs" by simp
  qed auto
  show ?thesis
    unfolding pixel_cidx cidx_set_pixel
    using data_fill_cells [OF in_img, of v "cidx img (row, col)"] mem
    by (auto simp: set_cells cidx_def)
qed

text \<open>C9 PLACEHOLDER\<close>

theorem readZTile_constant_tiles_ignore_mask:
  assumes "r1 \<le> img_height img" "c1 \<le> img_width img"
    and "length (img_data img) = img_width img * img_height img"
    and "stib67 (unat b0 div 64) \<noteq> 0"
  shows "(unat b0 mod 64 = 3 \<and> stib67 (unat b0 div 64) \<le> length ptr \<longrightarrow>
            fst (readZTile img (b0 # ptr) r0 r1 c0 c1 maxZErrorInFile maxZInImg) \<and>
            (\<forall>row col. r0 \<le> row \<and> row < r1 \<and> c0 \<le> col \<and> col < c1 \<longrightarrow>
               pixel (fst (snd (readZTile img (b0 # ptr) r0 r1 c0 c1 maxZErrorInFile maxZInImg)))
                 row col = readFlt ptr (stib67 (unat b0 div 64)))) \<and>
         (unat b0 mod 64 = 2 \<longrightarrow>
            fst (readZTile img (b0 # ptr) r0 r1 c0 c1 maxZErrorInFile maxZInImg) \<and>
            (\<forall>row col. r0 \<le> row \<and> row < r1 \<and> c0 \<le> col \<and> col < c1 \<longrightarrow>
               pixel (fst (snd (readZTile img (b0 # ptr) r0 r1 c0 c1 maxZErrorInFile maxZInImg)))
                 row col = f_zero))"
proof -
  have p: "pixel (fill_cells img (cells r0 r1 c0 c1) v) row col = v"
    if "r0 \<le> row \<and> row < r1 \<and> c0 \<le> col \<and> col < c1" for v row col
    using pixel_fill_tile [OF assms(1-3), of col r0 c0 v row] that assms(2) by auto
  show ?thesis
    using assms(4) p by (auto simp: readZTile_def Let_def)
qed

lemma read_stuffed_fields:
  "read_stuffed img cs idata minval q mx = (ok, img2) \<Longrightarrow>
   img_width img2 = img_width img \<and> img_height img2 = img_height img \<and>
   img_mask img2 = img_mask img \<and> length (img_data img2) = length (img_data img)"
proof (induction cs arbitrary: img idata)
  case Nil
  then show ?case by simp
next
  case (Cons rc cs)
  show ?case
  proof (cases "IsValid img (fst rc) (snd rc)")
    case True
    show ?thesis
    proof (cases idata)
      case Nil
      with True Cons.prems show ?thesis by simp
    next
      case (Cons v idata2)
      with True Cons.prems Cons.IH [of "set_pixel img (fst rc) (snd rc) (f_min mx (dequantize minval q v))" idata2]
      show ?thesis by simp
    qed
  next
    case False
    with Cons.prems Cons.IH [of img idata] show ?thesis by simp
  qed
qed

lemma read_stuffed_others:
  "read_stuffed img cs idata minval q mx = (ok, img2) \<Longrightarrow> i \<notin> cidx img ` set cs \<Longrightarrow>
   img_data img2 ! i = img_data img ! i"
proof (induction cs arbitrary: img idata)
  case Nil
  then show ?case by simp
next
  case (Cons rc cs)
  show ?case
  proof (cases "IsValid img (fst rc) (snd rc)")
    case True
    show ?thesis
    proof (cases idata)
      case Nil
      with True Cons.prems show ?thesis by simp
    next
      case (Cons v idata2)
      let ?img = "set_pixel img (fst rc) (snd rc) (f_min mx (dequantize minval q v))"
      have r: "read_stuffed ?img cs idata2 minval q mx = (ok, img2)"
        using True Cons Cons.prems(1) by simp
      have "i \<notin> cidx ?img ` set cs" using Cons.prems(2) by simp
      from Cons.IH [OF r this] have "img_data img2 ! i = img_data ?img ! i" .
      also have "\<dots> = img_data img ! i"
        using Cons.prems(2) data_set_pixel [of img "fst rc" "snd rc" _ i] by auto
      finally show ?thesis .
    qed
  next
    case False
    with Cons.prems Cons.IH [of img idata] show ?thesis by simp
  qed
qed

lemma read_stuffed_values:
  "read_stuffed img cs idata minval q mx = (True, img2) \<Longrightarrow>
   distinct (map (cidx img) cs) \<Longrightarrow>
   \<forall>rc\<in>set cs. cidx img rc < length (img_data img) \<Longrightarrow>
   length (filter (\<lambda>rc. IsValid img (fst rc) (snd rc)) cs) = length idata \<and>
   (\<forall>j<length idata.
      img_data img2 ! cidx img (filter (\<lambda>rc. IsValid img (fst rc) (snd rc)) cs ! j) =
      f_min mx (dequantize minval q (idata ! j)))"
proof (induction cs arbitrary: img idata)
  case Nil
  then show ?case by simp
next
  case (Cons rc cs)
  show ?case
  proof (cases "IsValid img (fst rc) (snd rc)")
    case True
    show ?thesis
    proof (cases idata)
      case Nil
      with True Cons.prems show ?thesis by simp
    next
      case (Cons v idata2)
      let ?val = "f_min mx (dequantize minval q v)"
      let ?img = "set_pixel img (fst rc) (snd rc) ?val"
      let ?vc = "filter (\<lambda>rc. IsValid img (fst rc) (snd rc)) cs"
      have r: "read_stuffed ?img cs idata2 minval q mx = (True, img2)"
        using True Cons Cons.prems(1) by simp
      have d: "distinct (map (cidx ?img) cs)" using Cons.prems(2) by simp
      have b: "\<forall>x\<in>set cs. cidx ?img x < length (img_data ?img)" using Cons.prems(3) by simp
      from Cons.IH [OF r d b]
      have len: "length ?vc = length idata2"
        and vals: "\<forall>j<length idata2. img_data img2 ! cidx img (?vc ! j) =
                     f_min mx (dequantize minval q (idata2 ! j))"
        by simp_all
      have notin: "cidx img rc \<notin> cidx ?img ` set cs" using Cons.prems(2) by auto
      have "img_data img2 ! cidx img rc = img_data ?img ! cidx img rc"
        by (rule read_stuffed_others [OF r notin])
      also have "\<dots> = ?val"
        using Cons.prems(3) data_set_pixel [of img "fst rc" "snd rc" ?val "cidx img rc"] by simp
      finally have first: "img_data img2 ! cidx img rc = ?val" .
      have "img_data img2 ! cidx img ((rc # ?vc) ! j) = f_min mx (dequantize minval q ((v # idata2) ! j))"
        if "j < length (v # idata2)" for j
        using that first vals by (cases j) simp_all
      with True Cons len show ?thesis by simp
    qed
  next
    case False
    with Cons.prems Cons.IH [of img idata] show ?thesis by simp
  qed
qed

lemma distinct_cidx_cells:
  assumes "c1 \<le> img_width img"
  shows "distinct (map (cidx img) (cells r0 r1 c0 c1))"
proof -
  have "inj_on (cidx img) (set (cells r0 r1 c0 c1))"
  proof (rule inj_onI)
    fix a b assume "a \<in> set (cells r0 r1 c0 c1)" "b \<in> set (cells r0 r1 c0 c1)" "cidx img a = cidx img b"
    then show "a = b" using assms by (intro cidx_inj [of a img b]) (auto simp: set_cells)
  qed
  then show ?thesis by (simp add: distinct_map distinct_cells)
qed

lemma f_min_not_above: "\<not> f_lt mx (f_min mx x)"
  by (simp add: f_min_def f_lt_def)

text \<open>C8 PLACEHOLDER\<close>

theorem readZTile_quantized_clamped:
  assumes "r1 \<le> img_height img" "c1 \<le> img_width img"
    and "length (img_data img) = img_width img * img_height img"
    and "unat b0 mod 64 = 1" and "stib67 (unat b0 div 64) \<noteq> 0"
    and "stib67 (unat b0 div 64) \<le> length ptr"
    and "blockread (drop (stib67 (unat b0 div 64)) ptr) ((r1 - r0) * (c1 - c0)) = Some (idataVec, ptr2)"
    and "fst (readZTile img (b0 # ptr) r0 r1 c0 c1 maxZErrorInFile maxZInImg)"
  shows "length (valid_cells img r0 r1 c0 c1) = length idataVec \<and>
         (\<forall>j<length idataVec.
            pixel (fst (snd (readZTile img (b0 # ptr) r0 r1 c0 c1 maxZErrorInFile maxZInImg)))
              (fst (valid_cells img r0 r1 c0 c1 ! j)) (snd (valid_cells img r0 r1 c0 c1 ! j)) =
            f_min maxZInImg
              (d2f (d_add (f2d (readFlt ptr (stib67 (unat b0 div 64))))
                     (d_mul (d_mul maxZErrorInFile d_two) (u2d (idataVec ! j))))) \<and>
            \<not> f_lt maxZInImg
              (pixel (fst (snd (readZTile img (b0 # ptr) r0 r1 c0 c1 maxZErrorInFile maxZInImg)))
                 (fst (valid_cells img r0 r1 c0 c1 ! j)) (snd (valid_cells img r0 r1 c0 c1 ! j))))"
proof -
  let ?n = "stib67 (unat b0 div 64)"
  let ?cs = "cells r0 r1 c0 c1"
  let ?q = "d_mul maxZErrorInFile d_two"
  obtain ok img2 where rs:
    "read_stuffed img ?cs idataVec (readFlt ptr ?n) ?q maxZInImg = (ok, img2)"
    by (cases "read_stuffed img ?cs idataVec (readFlt ptr ?n) ?q maxZInImg") auto
  have rz: "readZTile img (b0 # ptr) r0 r1 c0 c1 maxZErrorInFile maxZInImg =
            (ok, img2, if ok then ptr2 else b0 # ptr)"
    using assms(4-7) rs by (simp add: readZTile_def Let_def)
  have ok: "ok" using assms(8) rz by simp
  have w: "cidx img2 = cidx img"
    using read_stuffed_fields [OF rs] by (intro ext) (simp add: cidx_def)
  from read_stuffed_values [OF rs [unfolded ok [THEN eqTrueI]] distinct_cidx_cells [OF assms(2)]
      cells_in_image [OF assms(1-3)]]
  have len: "length (valid_cells img r0 r1 c0 c1) = length idataVec"
    and vals: "\<forall>j<length idataVec.
        img_data img2 ! cidx img (valid_cells img r0 r1 c0 c1 ! j) =
        f_min maxZInImg (dequantize (readFlt ptr ?n) ?q (idataVec ! j))"
    by (simp_all add: valid_cells_def)
  show ?thesis
    unfolding rz using len vals f_min_not_above [of maxZInImg]
    by (simp add: pixel_cidx w dequantize_def)
qed

text \<open>C3 PLACEHOLDER\<close>

theorem findTiling_scan_stops_on_increase:
  "findTiling img maxZError =
     (case writeTiles img maxZError 1 1 False of
        None \<Rightarrow> None
      | Some (base, maxVal, bytes) \<Rightarrow>
          map_option (\<lambda>(tv, th, nb). (tv, th, nb, maxVal))
            (findTiling_loop img maxZError [8, 11, 15, 20, 32, 64] (1, 1, base))) \<and>
   (2 \<le> (getHeight img div w) * (getWidth img div w) \<and>
    writeTiles img maxZError (getHeight img div w) (getWidth img div w) False = Some (n, mv, bs) \<longrightarrow>
      (n > nb0 \<longrightarrow>
         findTiling_loop img maxZError (w # ws) (tv0, th0, nb0) = Some (tv0, th0, nb0)) \<and>
      (n = nb0 \<longrightarrow>
         findTiling_loop img maxZError (w # ws) (tv0, th0, nb0) =
         findTiling_loop img maxZError ws (tv0, th0, nb0)) \<and>
      (n < nb0 \<longrightarrow>
         findTiling_loop img maxZError (w # ws) (tv0, th0, nb0) =
         findTiling_loop img maxZError ws (getHeight img div w, getWidth img div w, n)))"
proof -
  have a: "findTiling img maxZError =
     (case writeTiles img maxZError 1 1 False of
        None \<Rightarrow> None
      | Some (base, maxVal, bytes) \<Rightarrow>
          map_option (\<lambda>(tv, th, nb). (tv, th, nb, maxVal))
            (findTiling_loop img maxZError [8, 11, 15, 20, 32, 64] (1, 1, base)))"
    unfolding findTiling_def tileWidthArr_def
    by (simp split: option.split prod.split)
  have b: "findTiling_loop img maxZError (w # ws) (tv0, th0, nb0) = Some (tv0, th0, nb0)"
    if "2 \<le> (getHeight img div w) * (getWidth img div w)"
      "writeTiles img maxZError (getHeight img div w) (getWidth img div w) False = Some (n, mv, bs)"
      "n > nb0"
    using that by (simp add: Let_def)
  have c: "findTiling_loop img maxZError (w # ws) (tv0, th0, nb0) =
         findTiling_loop img maxZError ws (tv0, th0, nb0)"
    if "2 \<le> (getHeight img div w) * (getWidth img div w)"
      "writeTiles img maxZError (getHeight img div w) (getWidth img div w) False = Some (n, mv, bs)"
      "n = nb0"
    using that by (simp add: Let_def)
  have d: "findTiling_loop img maxZError (w # ws) (tv0, th0, nb0) =
         findTiling_loop img maxZError ws (getHeight img div w, getWidth img div w, n)"
    if "2 \<le> (getHeight img div w) * (getWidth img div w)"
      "writeTiles img maxZError (getHeight img div w) (getWidth img div w) False = Some (n, mv, bs)"
      "n < nb0"
    using that by (simp add: Let_def)
  from a b c d show ?thesis by blast
qed

end
